theory Spec2Isabelle
  imports Main
begin

section \<open>Strings of the log parser\<close>

text \<open>
  A JavaScript string is a sequence of UTF-16 code units. The model uses \<^typ>\<open>string\<close>;
  a \<^typ>\<open>char\<close> stands for a code unit below 256 (Latin-1). Every character the parser
  tests for lies in that range.
\<close>

definition LF :: char where "LF = CHR 0x0A"
definition CR :: char where "CR = CHR 0x0D"
definition SP :: char where "SP = CHR 0x20"

text \<open>
  The white space of \<open>String.prototype.trim\<close> and of the regular-expression class \<open>\s\<close>:
  tab, line feed, vertical tab, form feed, carriage return, space, no-break space.
\<close>

definition isSpace :: "char \<Rightarrow> bool" where
  "isSpace c = (c = CHR 0x09 \<or> c = LF \<or> c = CHR 0x0B \<or> c = CHR 0x0C \<or> c = CR
                \<or> c = SP \<or> c = CHR 0xA0)"

text \<open>The characters the regular-expression dot does not match.\<close>

definition isLineTerminator :: "char \<Rightarrow> bool" where
  "isLineTerminator c = (c = LF \<or> c = CR)"

text \<open>The class \<open>\d\<close>, and its complement \<open>\D\<close>.\<close>

definition charCode :: "char \<Rightarrow> nat" where
  "charCode c = of_char c"

definition isDigit :: "char \<Rightarrow> bool" where
  "isDigit c = (48 \<le> charCode c \<and> charCode c \<le> 57)"

text \<open>\<open>KEY_CHAR_REGEX = /[A-Za-z0-9_.-]/\<close>\<close>

definition isKeyChar :: "char \<Rightarrow> bool" where
  "isKeyChar c = ((65 \<le> charCode c \<and> charCode c \<le> 90) \<or> (97 \<le> charCode c \<and> charCode c \<le> 122)
                  \<or> isDigit c \<or> c = CHR ''_'' \<or> c = CHR ''.'' \<or> c = CHR ''-'')"

definition trimStart :: "string \<Rightarrow> string" where
  "trimStart s = dropWhile isSpace s"

definition trimEnd :: "string \<Rightarrow> string" where
  "trimEnd s = rev (dropWhile isSpace (rev s))"

definition trim :: "string \<Rightarrow> string" where
  "trim s = trimEnd (trimStart s)"

text \<open>\<open>s.slice(a, b)\<close> for non-negative arguments.\<close>

definition slice :: "string \<Rightarrow> nat \<Rightarrow> nat \<Rightarrow> string" where
  "slice s a b = take (b - a) (drop a s)"

text \<open>
  \<open>toLowerCase\<close> on code units below 256: the ASCII capitals and the Latin-1 capitals
  (0xC0 to 0xDE, the multiplication sign 0xD7 excepted) move up by 32.
\<close>

definition lowerChar :: "char \<Rightarrow> char" where
  "lowerChar c =
     (if (65 \<le> charCode c \<and> charCode c \<le> 90)
         \<or> (192 \<le> charCode c \<and> charCode c \<le> 222 \<and> charCode c \<noteq> 215)
      then char_of (charCode c + 32) else c)"

definition toLowerCase :: "string \<Rightarrow> string" where
  "toLowerCase s = map lowerChar s"


text \<open>The integer a string of decimal digits denotes.\<close>

definition digitsToInt :: "string \<Rightarrow> int" where
  "digitsToInt s = foldl (\<lambda>a c. 10 * a + int (charCode c - 48)) 0 s"

text \<open>
  \<open>Number(digits)\<close> for a non-empty string of decimal digits. A JavaScript number is a
  double: the integer is rounded to 53 significant bits, ties to even, and is \<open>Infinity\<close>
  from \<open>2^1024\<close> on. (Engines round a numeral of more than 20 digits correctly, which
  ECMAScript allows and does not require.)
\<close>

datatype number = Finite int | Infinity

function bitLength :: "int \<Rightarrow> nat" where
  "bitLength v = (if v \<le> 0 then 0 else Suc (bitLength (v div 2)))"
  by pat_completeness auto
termination
  by (relation "measure nat") auto

declare bitLength.simps [simp del]

definition roundToDouble :: "int \<Rightarrow> number" where
  "roundToDouble v =
     (if bitLength v \<le> 53 then Finite v
      else (let e = bitLength v - 53;
                q = v div 2 ^ e;
                r = v mod 2 ^ e;
                q' = (if 2 * r > 2 ^ e \<or> (2 * r = 2 ^ e \<and> odd q) then q + 1 else q)
            in if q' * 2 ^ e \<ge> 2 ^ 1024 then Infinity else Finite (q' * 2 ^ e)))"

definition numberOfDigits :: "string \<Rightarrow> number" where
  "numberOfDigits s = roundToDouble (digitsToInt s)"

text \<open>
  The decimal numeral that a template literal prints for the index of a line: exact, since
  an index stays far below \<open>2^53\<close>.
\<close>

fun showNat :: "nat \<Rightarrow> string" where
  "showNat n = (if n < 10 then [char_of (48 + n)]
                else showNat (n div 10) @ [char_of (48 + n mod 10)])"

declare showNat.simps [simp del]

section \<open>Data model\<close>

text \<open>
  \<open>LogEntry\<close> and \<open>ParseResult\<close> of \<open>types.ts\<close>. A \<open>Date\<close> is its time value in
  milliseconds. \<open>metadata\<close> is a plain object: its own properties in the order of their
  creation.
\<close>

record LogEntry =
  id' :: string
  raw :: string
  timestampRaw :: string
  timestamp :: "int option"
  level :: string
  sourceFile :: string
  sourceLine :: "number option"
  message :: string
  metadata :: "(string \<times> string) list"

record ParseResult =
  entries :: "LogEntry list"
  skipped :: nat

text \<open>
  \<open>metadata[key] = value\<close> on an object created by \<open>{}\<close>: an existing own property
  keeps its place and takes the new value, a new one is added last. The key
  \<open>__proto__\<close> reaches the inherited accessor, which ignores a string: no own property
  is created.
\<close>

fun assign :: "(string \<times> 'v) list \<Rightarrow> string \<Rightarrow> 'v \<Rightarrow> (string \<times> 'v) list" where
  "assign [] k v = [(k, v)]"
| "assign ((k', v') # m) k v = (if k' = k then (k, v) # m else (k', v') # assign m k v)"

definition setProperty :: "(string \<times> string) list \<Rightarrow> string \<Rightarrow> string \<Rightarrow> (string \<times> string) list" where
  "setProperty obj key v = (if key = ''__proto__'' then obj else assign obj key v)"

section \<open>The line grammar\<close>

text \<open>
  \<open>LOG_LINE_REGEX\<close> is
  \<^verbatim>\<open>^(\d{4}-\d{2}-\d{2}T\d{2}:\d{2}:\d{2}\.\d+Z)\s+\[([^\]]+)\]\s+\[([^\]]+)\]\s+(.*)$\<close>.
  Each greedy quantifier is followed by a character outside its class (\<open>Z\<close> after
  \<open>\d+\<close>, \<open>[\<close> after \<open>\s+\<close>, \<open>]\<close> after \<open>[^\]]+\<close>), so only the longest run
  can lead to a match; the last \<open>\s+\<close> takes the longest run first, and giving white space
  back to \<open>.*\<close> cannot turn a failure into a match. The matcher below therefore scans
  from left to right without backtracking and returns the four capture groups.
\<close>

datatype pat = D | L char

fun patChar :: "pat \<Rightarrow> char \<Rightarrow> bool" where
  "patChar D c = isDigit c"
| "patChar (L x) c = (c = x)"

text \<open>\<open>\d{4}-\d{2}-\d{2}T\d{2}:\d{2}:\d{2}\.\<close>\<close>

definition tsHead :: "pat list" where
  "tsHead = [D, D, D, D, L CHR ''-'', D, D, L CHR ''-'', D, D, L CHR ''T'',
             D, D, L CHR '':'', D, D, L CHR '':'', D, D, L CHR ''.'']"

definition matchTimestamp :: "string \<Rightarrow> (string \<times> string) option" where
  "matchTimestamp s =
     (let h = take 20 s; r = drop 20 s;
          f = takeWhile isDigit r; r' = dropWhile isDigit r
      in if list_all2 patChar tsHead h \<and> f \<noteq> [] \<and> r' \<noteq> [] \<and> hd r' = CHR ''Z''
         then Some (h @ f @ ''Z'', tl r') else None)"

text \<open>\<open>\s+\<close> before a character that is not white space.\<close>

definition matchSpaces :: "string \<Rightarrow> string option" where
  "matchSpaces s = (if s \<noteq> [] \<and> isSpace (hd s) then Some (dropWhile isSpace s) else None)"

text \<open>\<open>\[([^\]]+)\]\<close>\<close>

definition matchBlock :: "string \<Rightarrow> (string \<times> string) option" where
  "matchBlock s =
     (case s of [] \<Rightarrow> None
      | c # r \<Rightarrow>
          let b = takeWhile (\<lambda>x. x \<noteq> CHR '']'') r; r' = dropWhile (\<lambda>x. x \<noteq> CHR '']'') r
          in if c = CHR ''['' \<and> b \<noteq> [] \<and> r' \<noteq> [] then Some (b, tl r') else None)"

text \<open>\<open>(.*)$\<close>: the dot matches no line terminator, and \<open>$\<close> is the end of the input.\<close>

definition matchRest :: "string \<Rightarrow> string option" where
  "matchRest s = (if list_ex isLineTerminator s then None else Some s)"

definition matchLogLine :: "string \<Rightarrow> (string \<times> string \<times> string \<times> string) option" where
  "matchLogLine line =
     (case matchTimestamp line of None \<Rightarrow> None
      | Some (ts, r1) \<Rightarrow>
     (case matchSpaces r1 of None \<Rightarrow> None
      | Some r2 \<Rightarrow>
     (case matchBlock r2 of None \<Rightarrow> None
      | Some (lvl, r3) \<Rightarrow>
     (case matchSpaces r3 of None \<Rightarrow> None
      | Some r4 \<Rightarrow>
     (case matchBlock r4 of None \<Rightarrow> None
      | Some (loc, r5) \<Rightarrow>
     (case matchSpaces r5 of None \<Rightarrow> None
      | Some r6 \<Rightarrow>
     (case matchRest r6 of None \<Rightarrow> None
      | Some payload \<Rightarrow> Some (ts, lvl, loc, payload))))))))"

section \<open>Timestamp and source location\<close>

text \<open>
  \<open>new Date(value).getTime()\<close> belongs to the platform, and engines differ on the strings
  they accept. It is the parameter \<open>dateTime\<close>: \<open>None\<close> is \<open>NaN\<close>.
\<close>

definition parseTimestamp :: "(string \<Rightarrow> int option) \<Rightarrow> string \<Rightarrow> int option" where
  "parseTimestamp dateTime v = (case dateTime v of None \<Rightarrow> None | Some t \<Rightarrow> Some t)"

text \<open>\<open>block.lastIndexOf(c)\<close>; \<open>None\<close> is \<open>-1\<close>.\<close>

definition lastIndexOf :: "char \<Rightarrow> string \<Rightarrow> nat option" where
  "lastIndexOf c s =
     (if c \<in> set s then Some (length s - 1 - length (takeWhile (\<lambda>x. x \<noteq> c) (rev s))) else None)"

definition parseLocation :: "string \<Rightarrow> string \<times> number option" where
  "parseLocation block =
     (case lastIndexOf CHR '':'' block of
        None \<Rightarrow> (trim block, None)
      | Some colonIndex \<Rightarrow>
          let filePart = trim (slice block 0 colonIndex);
              linePart = filter isDigit (drop (colonIndex + 1) block)
          in (filePart, if linePart = [] then None else Some (numberOfDigits linePart)))"

section \<open>Payload splitter\<close>

function skipSpaces :: "string \<Rightarrow> nat \<Rightarrow> nat" where
  "skipSpaces block index =
     (if index < length block \<and> block ! index = SP then skipSpaces block (index + 1) else index)"
  by pat_completeness auto
termination
  by (relation "measure (\<lambda>(block, index). length block - index)") auto

declare skipSpaces.simps [simp del]

function skipKeyChars :: "string \<Rightarrow> nat \<Rightarrow> nat" where
  "skipKeyChars block index =
     (if index < length block \<and> isKeyChar (block ! index) then skipKeyChars block (index + 1)
      else index)"
  by pat_completeness auto
termination
  by (relation "measure (\<lambda>(block, index). length block - index)") auto

declare skipKeyChars.simps [simp del]

definition isKeyAhead :: "string \<Rightarrow> nat \<Rightarrow> bool" where
  "isKeyAhead block start =
     (let keyStart = skipSpaces block start;
          index = skipKeyChars block keyStart
      in keyStart < length block \<and> index < length block \<and> block ! index = CHR ''='')"

text \<open>The two \<open>for\<close> loops of \<open>findMetadataStart\<close>; \<open>None\<close> is falling out of the loop.\<close>

function doubleSpaceScan :: "string \<Rightarrow> nat \<Rightarrow> nat option" where
  "doubleSpaceScan payload i =
     (if i + 1 < length payload then
        (if payload ! i \<noteq> SP \<or> payload ! (i + 1) \<noteq> SP then doubleSpaceScan payload (i + 1)
         else let j = skipSpaces payload i
              in if isKeyAhead payload j then Some j else doubleSpaceScan payload (i + 1))
      else None)"
  by pat_completeness auto
termination
  by (relation "measure (\<lambda>(payload, i). length payload - i)") auto

declare doubleSpaceScan.simps [simp del]

function singleSpaceScan :: "string \<Rightarrow> nat \<Rightarrow> nat option" where
  "singleSpaceScan payload i =
     (if i < length payload then
        (if payload ! i \<noteq> SP then singleSpaceScan payload (i + 1)
         else let j = skipSpaces payload i
              in if isKeyAhead payload j then Some j else singleSpaceScan payload (i + 1))
      else None)"
  by pat_completeness auto
termination
  by (relation "measure (\<lambda>(payload, i). length payload - i)") auto

declare singleSpaceScan.simps [simp del]

text \<open>\<open>None\<close> is \<open>-1\<close>.\<close>

definition findMetadataStart :: "string \<Rightarrow> nat option" where
  "findMetadataStart payload =
     (if isKeyAhead payload 0 then Some 0
      else (case doubleSpaceScan payload 0 of
              Some j \<Rightarrow> Some j
            | None \<Rightarrow> singleSpaceScan payload 0))"

text \<open>The three depth counters of \<open>readValue\<close>: parentheses, brackets, braces.\<close>

fun depthStep :: "char \<Rightarrow> nat \<times> nat \<times> nat \<Rightarrow> nat \<times> nat \<times> nat" where
  "depthStep c (depthParen, depthBracket, depthBrace) =
     (if c = CHR ''('' then (depthParen + 1, depthBracket, depthBrace)
      else if c = CHR '')'' \<and> depthParen > 0 then (depthParen - 1, depthBracket, depthBrace)
      else if c = CHR ''['' then (depthParen, depthBracket + 1, depthBrace)
      else if c = CHR '']'' \<and> depthBracket > 0 then (depthParen, depthBracket - 1, depthBrace)
      else if c = CHR ''{'' then (depthParen, depthBracket, depthBrace + 1)
      else if c = CHR ''}'' \<and> depthBrace > 0 then (depthParen, depthBracket, depthBrace - 1)
      else (depthParen, depthBracket, depthBrace))"

function readValueLoop :: "string \<Rightarrow> nat \<Rightarrow> nat \<times> nat \<times> nat \<Rightarrow> nat" where
  "readValueLoop block index depth =
     (if index < length block then
        (if block ! index = SP \<and> depthStep (block ! index) depth = (0, 0, 0)
            \<and> isKeyAhead block (index + 1)
         then index
         else readValueLoop block (index + 1) (depthStep (block ! index) depth))
      else index)"
  by pat_completeness auto
termination
  by (relation "measure (\<lambda>(block, index, depth). length block - index)") auto

declare readValueLoop.simps [simp del]

definition readValue :: "string \<Rightarrow> nat \<Rightarrow> string \<times> nat" where
  "readValue block startIndex =
     (let index = readValueLoop block startIndex (0, 0, 0)
      in (trimEnd (slice block startIndex index), index))"


text \<open>The scans only move forward; the loop of \<open>parseMetadata\<close> terminates by that.\<close>

lemma skipSpaces_ge: "index \<le> skipSpaces block index"
proof (induction block index rule: skipSpaces.induct)
  case (1 block index)
  show ?case
  proof (cases "index < length block \<and> block ! index = SP")
    case True
    with 1 have "index + 1 \<le> skipSpaces block (index + 1)" by simp
    with True show ?thesis by (subst skipSpaces.simps) simp
  next
    case False
    then show ?thesis by (subst skipSpaces.simps) auto
  qed
qed

lemma skipKeyChars_ge: "index \<le> skipKeyChars block index"
proof (induction block index rule: skipKeyChars.induct)
  case (1 block index)
  show ?case
  proof (cases "index < length block \<and> isKeyChar (block ! index)")
    case True
    with 1 have "index + 1 \<le> skipKeyChars block (index + 1)" by simp
    with True show ?thesis by (subst skipKeyChars.simps) simp
  next
    case False
    then show ?thesis by (subst skipKeyChars.simps) auto
  qed
qed

lemma readValueLoop_ge: "index \<le> readValueLoop block index depth"
proof (induction block index depth rule: readValueLoop.induct)
  case (1 block index depth)
  show ?case
  proof (cases "index < length block \<and> \<not> (block ! index = SP
      \<and> depthStep (block ! index) depth = (0, 0, 0) \<and> isKeyAhead block (index + 1))")
    case True
    with 1 have "index + 1 \<le> readValueLoop block (index + 1) (depthStep (block ! index) depth)"
      by blast
    with True show ?thesis by (subst readValueLoop.simps) auto
  next
    case False
    then show ?thesis by (subst readValueLoop.simps) auto
  qed
qed

function parseMetadataLoop ::
  "string \<Rightarrow> nat \<Rightarrow> (string \<times> string) list \<Rightarrow> (string \<times> string) list" where
  "parseMetadataLoop block index md =
     (if index < length block then
        (let keyStart = skipSpaces block index;
             keyEnd = skipKeyChars block keyStart
         in if keyEnd \<ge> length block \<or> block ! keyEnd \<noteq> CHR ''='' then md
            else (let key = slice block keyStart keyEnd;
                      r = readValue block (keyEnd + 1)
                  in parseMetadataLoop block (snd r) (setProperty md key (trim (fst r)))))
      else md)"
  by pat_completeness auto
termination
proof (relation "measure (\<lambda>(block, index, md). length block - index)")
  show "wf (measure (\<lambda>(block, index, md). length block - index))" by simp
next
  fix block :: string and index :: nat and md :: "(string \<times> string) list"
    and keyStart keyEnd key r
  assume lt: "index < length block"
    and ks: "keyStart = skipSpaces block index"
    and ke: "keyEnd = skipKeyChars block keyStart"
    and r: "r = readValue block (keyEnd + 1)"
  have "index \<le> keyEnd" using ks ke skipSpaces_ge skipKeyChars_ge le_trans by blast
  moreover have "keyEnd + 1 \<le> snd r" using r by (simp add: readValue_def Let_def readValueLoop_ge)
  ultimately have "index < snd r" by simp
  with lt show "((block, snd r, setProperty md key (trim (fst r))), (block, index, md))
      \<in> measure (\<lambda>(block, index, md). length block - index)" by simp
qed

declare parseMetadataLoop.simps [simp del]

definition parseMetadata :: "string \<Rightarrow> (string \<times> string) list" where
  "parseMetadata block = parseMetadataLoop block 0 []"

definition splitPayload :: "string \<Rightarrow> string \<times> (string \<times> string) list" where
  "splitPayload payload =
     (if payload = [] then ([], [])
      else (case findMetadataStart payload of
              None \<Rightarrow> (trim payload, [])
            | Some metadataStart \<Rightarrow>
                (trimEnd (slice payload 0 metadataStart),
                 parseMetadata (trim (drop metadataStart payload)))))"

section \<open>Line parser and batch driver\<close>

definition parseLine :: "(string \<Rightarrow> int option) \<Rightarrow> string \<Rightarrow> nat \<Rightarrow> LogEntry option" where
  "parseLine dateTime line index =
     (case matchLogLine line of
        None \<Rightarrow> None
      | Some (ts, lvl, loc, payload) \<Rightarrow>
          Some \<lparr> id' = ts @ ''-'' @ showNat index,
                 raw = line,
                 timestampRaw = ts,
                 timestamp = parseTimestamp dateTime ts,
                 level = toLowerCase (trim lvl),
                 sourceFile = fst (parseLocation loc),
                 sourceLine = snd (parseLocation loc),
                 message = fst (splitPayload payload),
                 metadata = snd (splitPayload payload) \<rparr>)"

text \<open>\<open>raw.split(/\r?\n/)\<close>: a line feed, or a carriage return directly before one, ends
  a line.\<close>

fun splitLines :: "string \<Rightarrow> string list" where
  "splitLines [] = [[]]"
| "splitLines (c # cs) =
     (if c = LF then [] # splitLines cs
      else if c = CR \<and> cs \<noteq> [] \<and> hd cs = LF then [] # splitLines (tl cs)
      else (case splitLines cs of [] \<Rightarrow> [[c]] | l # ls \<Rightarrow> (c # l) # ls))"

text \<open>The body of the \<open>forEach\<close>, on the accumulated entries and skip counter.\<close>

definition lineStep :: "(string \<Rightarrow> int option) \<Rightarrow> ParseResult \<Rightarrow> nat \<times> string \<Rightarrow> ParseResult" where
  "lineStep dateTime acc il =
     (let trimmed = trim (snd il)
      in if trimmed = [] then acc
         else (case parseLine dateTime trimmed (fst il) of
                 Some parsed \<Rightarrow> acc\<lparr>entries := entries acc @ [parsed]\<rparr>
               | None \<Rightarrow> acc\<lparr>skipped := skipped acc + 1\<rparr>))"

definition parseLogText :: "(string \<Rightarrow> int option) \<Rightarrow> string \<Rightarrow> ParseResult" where
  "parseLogText dateTime rawText =
     foldl (lineStep dateTime) \<lparr>entries = [], skipped = 0\<rparr> (enumerate 0 (splitLines rawText))"


section \<open>Tabular projection\<close>

text \<open>\<open>FacetColumn\<close> and \<open>FacetView\<close> of \<open>utils/facets.ts\<close>.\<close>

datatype columnSource = Core | Metadata

record FacetColumn =
  name :: string
  label :: string
  source :: columnSource
  originalKey :: "string option"
  description :: "string option"

text \<open>
  The values of a row: \<open>null\<close>, a boolean, a string, and two kinds of number, the
  numbers taken from the entry and the result of \<open>Number(trimmed)\<close>, whose type \<open>'n\<close>
  is left to the platform.
\<close>

datatype 'n cell = Null | Bool bool | Num 'n | EntryNum number | Str string

record 'n FacetView =
  rows :: "(string \<times> 'n cell) list list"
  columns :: "FacetColumn list"

definition coreColumn :: "string \<Rightarrow> string \<Rightarrow> FacetColumn" where
  "coreColumn n d = \<lparr>name = n, label = n, source = Core, originalKey = None, description = Some d\<rparr>"

definition CORE_COLUMNS :: "FacetColumn list" where
  "CORE_COLUMNS =
     [coreColumn ''id'' ''Unique log line id (timestamp-index).'',
      coreColumn ''timestamp'' ''Original ISO8601 timestamp string.'',
      coreColumn ''timestamp_ms'' ''Timestamp as milliseconds since epoch.'',
      coreColumn ''level'' ''Normalized log level (debug/info/etc).'',
      coreColumn ''source_file'' ''File path inside the brackets.'',
      coreColumn ''source_line'' ''Line number extracted from source block.'',
      coreColumn ''message'' ''Free-form message text before kwargs.'',
      coreColumn ''raw'' ''Entire unparsed log line.'']"

text \<open>
  \<open>sanitizeKey\<close>: \<open>/[^A-Za-z0-9_]/g\<close> becomes an underscore, \<open>/_{2,}/g\<close> one
  underscore, \<open>/^_+|_+$/g\<close> is removed.
\<close>

definition isWordChar :: "char \<Rightarrow> bool" where
  "isWordChar c = ((65 \<le> charCode c \<and> charCode c \<le> 90) \<or> (97 \<le> charCode c \<and> charCode c \<le> 122)
                   \<or> isDigit c \<or> c = CHR ''_'')"

fun collapseUnderscores :: "string \<Rightarrow> string" where
  "collapseUnderscores (a # b # cs) =
     (if a = CHR ''_'' \<and> b = CHR ''_'' then collapseUnderscores (b # cs)
      else a # collapseUnderscores (b # cs))"
| "collapseUnderscores cs = cs"

definition stripUnderscores :: "string \<Rightarrow> string" where
  "stripUnderscores s =
     rev (dropWhile (\<lambda>c. c = CHR ''_'') (rev (dropWhile (\<lambda>c. c = CHR ''_'') s)))"

definition sanitizeKey :: "string \<Rightarrow> string" where
  "sanitizeKey key =
     (let replaced = stripUnderscores (collapseUnderscores
                       (map (\<lambda>c. if isWordChar c then c else CHR ''_'') key));
          trimmed = (if replaced = [] then ''field'' else replaced)
      in if isDigit (hd trimmed) then ''f_'' @ trimmed else toLowerCase trimmed)"

text \<open>
  \<open>toNumber\<close> is \<open>Number(trimmed)\<close> where the result is finite, \<open>None\<close> otherwise.
\<close>

definition coerceValue :: "(string \<Rightarrow> 'n option) \<Rightarrow> string \<Rightarrow> 'n cell" where
  "coerceValue toNumber v =
     (let trimmed = trim v
      in if trimmed = [] \<or> toLowerCase trimmed = ''none'' \<or> toLowerCase trimmed = ''null'' then Null
         else if toLowerCase trimmed = ''true'' then Bool True
         else if toLowerCase trimmed = ''false'' then Bool False
         else (case toNumber trimmed of Some n \<Rightarrow> Num n | None \<Rightarrow> Str v))"

text \<open>
  \<open>Object.entries\<close> lists the own properties whose keys are array indices (canonical
  decimal numerals below \<open>2^32 - 1\<close>) first, in ascending order, and then the other
  keys in the order of their creation.
\<close>

definition isArrayIndex :: "string \<Rightarrow> bool" where
  "isArrayIndex k = (k \<noteq> [] \<and> list_all isDigit k \<and> (k = ''0'' \<or> hd k \<noteq> CHR ''0'')
                     \<and> digitsToInt k < 4294967295)"

definition objectEntries :: "(string \<times> 'v) list \<Rightarrow> (string \<times> 'v) list" where
  "objectEntries obj =
     sort_key (\<lambda>kv. digitsToInt (fst kv)) (filter (\<lambda>kv. isArrayIndex (fst kv)) obj)
     @ filter (\<lambda>kv. \<not> isArrayIndex (fst kv)) obj"

text \<open>
  \<open>metadataColumnMap\<close> is a \<open>Map\<close>: its entries in insertion order. \<open>set\<close> on a key
  that is absent adds the entry last, as \<open>assign\<close> does.
\<close>

definition has :: "(string \<times> 'v) list \<Rightarrow> string \<Rightarrow> bool" where
  "has m k = (map_of m k \<noteq> None)"

definition candidateName :: "string \<Rightarrow> nat \<Rightarrow> string" where
  "candidateName base suffix = base @ ''_'' @ showNat suffix"

text \<open>The candidates of one base are pairwise different, so the search for a free suffix
  ends.\<close>

lemma charCode_char_of: "charCode (char_of n) = n mod 256"
  by (simp add: charCode_def)

lemma digit_char: "k < 10 \<Longrightarrow> charCode (char_of (48 + k)) = 48 + k"
  by (simp add: charCode_char_of)

lemma showNat_digits: "\<forall>c\<in>set (showNat n). isDigit c"
proof (induction n rule: showNat.induct)
  case (1 n)
  show ?case
  proof (cases "n < 10")
    case True
    then show ?thesis by (subst showNat.simps) (simp add: isDigit_def digit_char)
  next
    case False
    have "n mod 10 < 10" by simp
    then have "isDigit (char_of (48 + n mod 10))" by (simp add: isDigit_def digit_char)
    with False 1 show ?thesis by (subst showNat.simps) auto
  qed
qed

lemma digitsToInt_snoc: "digitsToInt (s @ [c]) = 10 * digitsToInt s + int (charCode c - 48)"
  by (simp add: digitsToInt_def)

lemma digitsToInt_showNat: "digitsToInt (showNat n) = int n"
proof (induction n rule: showNat.induct)
  case (1 n)
  show ?case
  proof (cases "n < 10")
    case True
    then show ?thesis by (subst showNat.simps) (simp add: digitsToInt_def digit_char)
  next
    case False
    have "n mod 10 < 10" by simp
    then have d: "charCode (char_of (48 + n mod 10)) - 48 = n mod 10" by (simp add: digit_char)
    have "int n = 10 * int (n div 10) + int (n mod 10)" by presburger
    with False 1 d show ?thesis by (subst showNat.simps) (simp add: digitsToInt_snoc)
  qed
qed

lemma showNat_inj: "showNat i = showNat j \<Longrightarrow> i = j"
proof -
  assume "showNat i = showNat j"
  then have "digitsToInt (showNat i) = digitsToInt (showNat j)" by simp
  then show "i = j" by (simp add: digitsToInt_showNat)
qed

lemma candidateName_inj: "candidateName base i = candidateName base j \<Longrightarrow> i = j"
  by (simp add: candidateName_def showNat_inj)

lemma filter_length_less:
  assumes "\<And>x. Q x \<Longrightarrow> P x" and "x \<in> set xs" and "P x" and "\<not> Q x"
  shows "length (filter Q xs) < length (filter P xs)"
proof -
  have "filter Q xs = filter Q (filter P xs)" using assms(1) by (auto intro: filter_cong)
  moreover have "x \<in> set (filter P xs)" using assms(2,3) by simp
  ultimately show ?thesis using assms(4) by (metis length_filter_less)
qed

text \<open>The \<open>while\<close> loop of \<open>ensureColumn\<close>.\<close>

function nextSuffix :: "(string \<times> 'v) list \<Rightarrow> string \<Rightarrow> nat \<Rightarrow> nat" where
  "nextSuffix m base suffix =
     (if has m (candidateName base suffix) then nextSuffix m base (suffix + 1) else suffix)"
  by pat_completeness auto
termination
proof (relation "measure (\<lambda>(m, base, suffix).
    length (filter (\<lambda>k. \<exists>n\<ge>suffix. k = candidateName base n) (map fst m)))")
  show "wf (measure (\<lambda>(m :: (string \<times> 'v) list, base, suffix).
    length (filter (\<lambda>k. \<exists>n\<ge>suffix. k = candidateName base n) (map fst m))))" by simp
next
  fix m :: "(string \<times> 'v) list" and base :: string and suffix :: nat
  assume "has m (candidateName base suffix)"
  then have mem: "candidateName base suffix \<in> set (map fst m)"
    by (auto simp: has_def dest: map_of_SomeD intro: rev_image_eqI)
  have "length (filter (\<lambda>k. \<exists>n\<ge>suffix + 1. k = candidateName base n) (map fst m))
      < length (filter (\<lambda>k. \<exists>n\<ge>suffix. k = candidateName base n) (map fst m))"
  proof (rule filter_length_less [OF _ mem])
    fix x assume "\<exists>n\<ge>suffix + 1. x = candidateName base n"
    then obtain n where "suffix + 1 \<le> n" and x: "x = candidateName base n" by blast
    then have "suffix \<le> n" by simp
    with x show "\<exists>n\<ge>suffix. x = candidateName base n" by blast
  next
    show "\<exists>n\<ge>suffix. candidateName base suffix = candidateName base n" by auto
  next
    show "\<not> (\<exists>n\<ge>suffix + 1. candidateName base suffix = candidateName base n)"
    proof
      assume "\<exists>n\<ge>suffix + 1. candidateName base suffix = candidateName base n"
      then obtain n where n: "suffix + 1 \<le> n"
        and "candidateName base suffix = candidateName base n" by blast
      then have "suffix = n" using candidateName_inj by blast
      with n show False by simp
    qed
  qed
  then show "((m, base, suffix + 1), (m, base, suffix)) \<in> measure (\<lambda>(m, base, suffix).
    length (filter (\<lambda>k. \<exists>n\<ge>suffix. k = candidateName base n) (map fst m)))" by simp
qed

declare nextSuffix.simps [simp del]

definition metadataColumn :: "string \<Rightarrow> string \<Rightarrow> FacetColumn" where
  "metadataColumn n key =
     \<lparr>name = n, label = n, source = Metadata, originalKey = Some key,
      description = Some (''Metadata parsed from '' @ [CHR 0x22] @ key @ [CHR 0x22] @ ''.'')\<rparr>"

definition ensureColumn ::
  "(string \<times> FacetColumn) list \<Rightarrow> string \<Rightarrow> string \<times> (string \<times> FacetColumn) list" where
  "ensureColumn metadataColumnMap key =
     (let base = ''meta_'' @ sanitizeKey key
      in if \<not> has metadataColumnMap base
         then (base, assign metadataColumnMap base (metadataColumn base key))
         else if (case map_of metadataColumnMap base of
                    Some existing \<Rightarrow> originalKey existing = Some key | None \<Rightarrow> False)
         then (base, metadataColumnMap)
         else (let candidate = candidateName base (nextSuffix metadataColumnMap base 2)
               in (candidate,
                   assign metadataColumnMap candidate (metadataColumn candidate key))))"

text \<open>The body of \<open>logs.map\<close>, with the column map threaded through the entries.\<close>

definition coreRow :: "LogEntry \<Rightarrow> (string \<times> 'n cell) list" where
  "coreRow log =
     [(''id'', Str (id' log)),
      (''timestamp'', Str (timestampRaw log)),
      (''timestamp_ms'', (case timestamp log of Some t \<Rightarrow> EntryNum (Finite t) | None \<Rightarrow> Null)),
      (''level'', Str (level log)),
      (''source_file'', Str (sourceFile log)),
      (''source_line'', (case sourceLine log of Some n \<Rightarrow> EntryNum n | None \<Rightarrow> Null)),
      (''message'', Str (message log)),
      (''raw'', Str (raw log))]"

definition cellStep ::
  "(string \<Rightarrow> 'n option) \<Rightarrow> (string \<times> 'n cell) list \<times> (string \<times> FacetColumn) list
     \<Rightarrow> string \<times> string \<Rightarrow> (string \<times> 'n cell) list \<times> (string \<times> FacetColumn) list" where
  "cellStep toNumber st kv =
     (let c = ensureColumn (snd st) (fst kv)
      in (assign (fst st) (fst c) (coerceValue toNumber (snd kv)), snd c))"

definition rowStep ::
  "(string \<Rightarrow> 'n option) \<Rightarrow> (string \<times> 'n cell) list list \<times> (string \<times> FacetColumn) list
     \<Rightarrow> LogEntry \<Rightarrow> (string \<times> 'n cell) list list \<times> (string \<times> FacetColumn) list" where
  "rowStep toNumber st log =
     (let r = foldl (cellStep toNumber) (coreRow log, snd st) (objectEntries (metadata log))
      in (fst st @ [fst r], snd r))"

definition buildFacetView :: "(string \<Rightarrow> 'n option) \<Rightarrow> LogEntry list \<Rightarrow> 'n FacetView" where
  "buildFacetView toNumber logs =
     (let r = foldl (rowStep toNumber) ([], []) logs
      in \<lparr>rows = fst r, columns = CORE_COLUMNS @ map snd (snd r)\<rparr>)"

section \<open>The batch driver, as the specification words it\<close>

text \<open>
  "Splits input text on line breaks (handles both bare and carriage-return-prefixed
  breaks)": the text is cut at every line feed, and a carriage return that directly
  precedes the line feed belongs to the break, not to the line.
\<close>


fun splitOn :: "char \<Rightarrow> string \<Rightarrow> string list" where
  "splitOn sep [] = [[]]"
| "splitOn sep (c # cs) =
     (if c = sep then [] # splitOn sep cs
      else (case splitOn sep cs of [] \<Rightarrow> [[c]] | l # ls \<Rightarrow> (c # l) # ls))"

definition stripCR :: "string \<Rightarrow> string" where
  "stripCR l = (if l \<noteq> [] \<and> last l = CR then butlast l else l)"

definition spec_splitLines :: "string \<Rightarrow> string list" where
  "spec_splitLines t = (let ls = splitOn LF t in map stripCR (butlast ls) @ [last ls])"

text \<open>A blank or whitespace-only line.\<close>

definition isBlank :: "string \<Rightarrow> bool" where
  "isBlank l = list_all isSpace l"


text \<open>What the line parser makes of the line at an index, trimmed as the driver trims it.\<close>

definition lineResult :: "(string \<Rightarrow> int option) \<Rightarrow> nat \<times> string \<Rightarrow> LogEntry option" where
  "lineResult dateTime il = parseLine dateTime (trim (snd il)) (fst il)"


section \<open>The line grammar, as the specification words it\<close>

text \<open>
  The four segments of the structural grammar: a timestamp of the shape
  \<open>YYYY-MM-DDTHH:MM:SS.fffZ\<close> with one or more fraction digits, a level block and a source
  block in brackets without a closing bracket inside, and the payload, which is the rest of
  the line. Between the segments stands a non-empty run of white space.
\<close>

definition isTimestampShape :: "string \<Rightarrow> bool" where
  "isTimestampShape ts =
     (list_all2 patChar tsHead (take 20 ts)
      \<and> butlast (drop 20 ts) \<noteq> [] \<and> list_all isDigit (butlast (drop 20 ts))
      \<and> last ts = CHR ''Z'')"

definition isGap :: "string \<Rightarrow> bool" where
  "isGap ws = (ws \<noteq> [] \<and> list_all isSpace ws)"

definition isBlockText :: "string \<Rightarrow> bool" where
  "isBlockText b = (b \<noteq> [] \<and> CHR '']'' \<notin> set b)"

definition isPayloadText :: "string \<Rightarrow> bool" where
  "isPayloadText p = (\<not> list_ex isLineTerminator p)"

definition logLine :: "string \<Rightarrow> string \<Rightarrow> string \<Rightarrow> string \<Rightarrow> string \<Rightarrow> string \<Rightarrow> string \<Rightarrow> string" where
  "logLine ts ws1 lvl ws2 loc ws3 payload =
     ts @ ws1 @ ''['' @ lvl @ '']'' @ ws2 @ ''['' @ loc @ '']'' @ ws3 @ payload"

text \<open>
  A table of \<open>Date\<close> for the examples: it knows the instant of the README's sample line
  and answers \<open>NaN\<close> for every other string, as every engine does for month 99.
\<close>

definition sampleDate :: "string \<Rightarrow> int option" where
  "sampleDate s = (if s = ''2024-04-12T05:41:11.337Z'' then Some 1712900471337 else None)"

section \<open>The key start, as the specification words it\<close>

text \<open>
  "At any candidate position, skip spaces, then scan a run of identifier characters
  (letters, digits, underscore, dot, hyphen); if that run is non-empty and immediately
  followed by \<open>=\<close>, this position is a legitimate key start."
\<close>

definition spec_keyStart :: "string \<Rightarrow> nat \<Rightarrow> bool" where
  "spec_keyStart block start =
     (let r = dropWhile (\<lambda>c. c = SP) (drop start block);
          run = takeWhile isKeyChar r;
          r' = dropWhile isKeyChar r
      in run \<noteq> [] \<and> r' \<noteq> [] \<and> hd r' = CHR ''='')"

section \<open>The value scan, as the specification words it\<close>

text \<open>
  One depth counter on its own: it rises at the opening character and falls at the closing
  one unless it is zero. \<open>depthOf\<close> is the counter after a string, started at zero.
\<close>

definition counterStep :: "char \<Rightarrow> char \<Rightarrow> nat \<Rightarrow> char \<Rightarrow> nat" where
  "counterStep opening closing d c =
     (if c = opening then d + 1 else if c = closing \<and> d > 0 then d - 1 else d)"

definition depthOf :: "char \<Rightarrow> char \<Rightarrow> string \<Rightarrow> nat" where
  "depthOf opening closing s = foldl (counterStep opening closing) 0 s"

text \<open>
  The scan of a value that started at \<open>start\<close> ends at \<open>i\<close>: a space, with the three
  counters at zero after the characters read so far, and a key start of the specification
  after the space.
\<close>

definition valueEndsAt :: "string \<Rightarrow> nat \<Rightarrow> nat \<Rightarrow> bool" where
  "valueEndsAt block start i =
     (i < length block \<and> block ! i = SP
      \<and> depthOf CHR ''('' CHR '')'' (slice block start i) = 0
      \<and> depthOf CHR ''['' CHR '']'' (slice block start i) = 0
      \<and> depthOf CHR ''{'' CHR ''}'' (slice block start i) = 0
      \<and> spec_keyStart block (i + 1))"

text \<open>The test the loop of \<open>readValue\<close> makes at an index, from any of its states.\<close>

definition stopAt :: "string \<Rightarrow> nat \<Rightarrow> nat \<times> nat \<times> nat \<Rightarrow> nat \<Rightarrow> bool" where
  "stopAt block i0 d0 k =
     (block ! k = SP \<and> foldl (\<lambda>d c. depthStep c d) d0 (slice block i0 k) = (0, 0, 0)
      \<and> isKeyAhead block (k + 1))"

section \<open>The metadata start, as the specification words it\<close>

text \<open>
  \<open>j\<close> is the position after the run of spaces that begins at \<open>i\<close>: only spaces from
  \<open>i\<close> up to \<open>j\<close>, and no space at \<open>j\<close>.
\<close>

definition afterSpaces :: "string \<Rightarrow> nat \<Rightarrow> nat \<Rightarrow> bool" where
  "afterSpaces payload i j =
     (i \<le> j \<and> j \<le> length payload \<and> list_all (\<lambda>c. c = SP) (slice payload i j)
      \<and> (j < length payload \<longrightarrow> payload ! j \<noteq> SP))"

text \<open>
  A double-space boundary: two consecutive spaces at \<open>i\<close>, followed after all the spaces
  of the run by a key start of the specification at \<open>j\<close>. A single-space boundary asks
  for one space at \<open>i\<close>.
\<close>

definition doubleSpaceBoundary :: "string \<Rightarrow> nat \<Rightarrow> nat \<Rightarrow> bool" where
  "doubleSpaceBoundary payload i j =
     (i + 1 < length payload \<and> payload ! i = SP \<and> payload ! (i + 1) = SP
      \<and> afterSpaces payload i j \<and> spec_keyStart payload j)"

definition singleSpaceBoundary :: "string \<Rightarrow> nat \<Rightarrow> nat \<Rightarrow> bool" where
  "singleSpaceBoundary payload i j =
     (i < length payload \<and> payload ! i = SP \<and> afterSpaces payload i j
      \<and> spec_keyStart payload j)"

text \<open>The tests the two loops of \<open>findMetadataStart\<close> make at an index.\<close>

definition doubleAt :: "string \<Rightarrow> nat \<Rightarrow> bool" where
  "doubleAt payload i =
     (i + 1 < length payload \<and> payload ! i = SP \<and> payload ! (i + 1) = SP
      \<and> isKeyAhead payload (skipSpaces payload i))"

definition singleAt :: "string \<Rightarrow> nat \<Rightarrow> bool" where
  "singleAt payload i =
     (i < length payload \<and> payload ! i = SP \<and> isKeyAhead payload (skipSpaces payload i))"

section \<open>The states of the metadata scan\<close>





section \<open>Calendar timestamps and the engine's Date\<close>

text \<open>
  The fields of a string of the timestamp shape, and the timestamps that name a date of
  the calendar and a time of the day.
\<close>

definition timestampField :: "string \<Rightarrow> nat \<Rightarrow> nat \<Rightarrow> int" where
  "timestampField ts a n = digitsToInt (take n (drop a ts))"

definition isLeapYear :: "int \<Rightarrow> bool" where
  "isLeapYear y = (y mod 4 = 0 \<and> (y mod 100 \<noteq> 0 \<or> y mod 400 = 0))"

definition daysInMonth :: "int \<Rightarrow> int \<Rightarrow> int" where
  "daysInMonth y m =
     (if m = 2 then (if isLeapYear y then 29 else 28)
      else if m = 4 \<or> m = 6 \<or> m = 9 \<or> m = 11 then 30 else 31)"

definition isCalendarTimestamp :: "string \<Rightarrow> bool" where
  "isCalendarTimestamp ts =
     (isTimestampShape ts
      \<and> 1 \<le> timestampField ts 5 2 \<and> timestampField ts 5 2 \<le> 12
      \<and> 1 \<le> timestampField ts 8 2
      \<and> timestampField ts 8 2 \<le> daysInMonth (timestampField ts 0 4) (timestampField ts 5 2)
      \<and> timestampField ts 11 2 \<le> 23 \<and> timestampField ts 14 2 \<le> 59
      \<and> timestampField ts 17 2 \<le> 59)"

text \<open>
  \<open>new Date(value).getTime()\<close> as V8 computes it on strings of the timestamp shape, the
  only ones \<open>parseTimestamp\<close> receives. The date parser of V8 asks for a month from 1
  to 12 and a day from 1 to 31, whatever the month, for minutes and seconds below 60 and an
  hour below 24 (or 24:00:00.000), and keeps three digits of the fraction. The time value
  is that of ECMAScript's \<open>MakeDay\<close> and \<open>MakeTime\<close>: the days from 1 January 1970 to the
  first day of the month, plus the day of the month less one, so that a day past the end
  of the month runs on into the next month.
\<close>

definition daysFromCivil :: "int \<Rightarrow> int \<Rightarrow> int \<Rightarrow> int" where
  "daysFromCivil y m d =
     (let y' = (if m \<le> 2 then y - 1 else y);
          era = y' div 400;
          yoe = y' - era * 400;
          doy = (153 * ((m + 9) mod 12) + 2) div 5 + d - 1;
          doe = yoe * 365 + yoe div 4 - yoe div 100 + doy
      in era * 146097 + doe - 719468)"

definition v8Date :: "string \<Rightarrow> int option" where
  "v8Date ts =
     (let y = timestampField ts 0 4; mo = timestampField ts 5 2; d = timestampField ts 8 2;
          h = timestampField ts 11 2; mi = timestampField ts 14 2; sec = timestampField ts 17 2;
          ms = digitsToInt (take 3 (butlast (drop 20 ts) @ ''00''))
      in if isTimestampShape ts \<and> 1 \<le> mo \<and> mo \<le> 12 \<and> 1 \<le> d \<and> d \<le> 31
            \<and> mi \<le> 59 \<and> sec \<le> 59 \<and> (h \<le> 23 \<or> (h = 24 \<and> mi = 0 \<and> sec = 0 \<and> ms = 0))
         then Some (daysFromCivil y mo d * 86400000 + h * 3600000 + mi * 60000
                    + sec * 1000 + ms)
         else None)"

section \<open>Properties of the batch driver\<close>

lemma splitOn_ne: "splitOn sep s \<noteq> []"
  by (induction s) (auto split: list.splits)

lemma CR_ne_LF: "CR \<noteq> LF"
  by (simp add: CR_def LF_def)

lemma spec_splitLines_Nil: "spec_splitLines [] = [[]]"
  by (simp add: spec_splitLines_def)

lemma spec_splitLines_LF: "spec_splitLines (LF # cs) = [] # spec_splitLines cs"
  using splitOn_ne [of LF cs]
  by (simp add: spec_splitLines_def Let_def stripCR_def)

lemma spec_splitLines_CRLF: "spec_splitLines (CR # LF # cs) = [] # spec_splitLines cs"
  using splitOn_ne [of LF cs] CR_ne_LF
  by (simp add: spec_splitLines_def Let_def stripCR_def)

lemma spec_splitLines_other:
  assumes "c \<noteq> LF" and "\<not> (c = CR \<and> cs \<noteq> [] \<and> hd cs = LF)"
  shows "spec_splitLines (c # cs) =
    (case spec_splitLines cs of [] \<Rightarrow> [[c]] | l # ls \<Rightarrow> (c # l) # ls)"
proof (cases "splitOn LF cs")
  case Nil
  then show ?thesis using splitOn_ne by blast
next
  case (Cons l ls)
  show ?thesis
  proof (cases ls)
    case Nil
    with Cons assms show ?thesis by (simp add: spec_splitLines_def)
  next
    case (Cons l' ls')
    have "stripCR (c # l) = c # stripCR l"
    proof (cases l)
      case Nil
      with \<open>splitOn LF cs = l # ls\<close> Cons have "cs \<noteq> [] \<and> hd cs = LF"
        by (cases cs) (auto split: if_splits list.splits)
      with assms have "c \<noteq> CR" by blast
      with Nil show ?thesis by (simp add: stripCR_def)
    next
      case (Cons a as)
      then show ?thesis by (simp add: stripCR_def)
    qed
    with \<open>splitOn LF cs = l # ls\<close> Cons assms show ?thesis
      by (simp add: spec_splitLines_def)
  qed
qed

lemma splitLines_refines: "splitLines t = spec_splitLines t"
proof (induction t rule: splitLines.induct)
  case 1
  show ?case by (simp add: spec_splitLines_Nil)
next
  case (2 c cs)
  show ?case
  proof (cases "c = LF")
    case True
    with 2 show ?thesis by (simp add: spec_splitLines_LF)
  next
    case notLF: False
    show ?thesis
    proof (cases "c = CR \<and> cs \<noteq> [] \<and> hd cs = LF")
      case True
      then obtain ds where "cs = LF # ds" by (cases cs) auto
      with True notLF 2 show ?thesis by (simp add: spec_splitLines_CRLF)
    next
      case False
      with notLF have "splitLines (c # cs) =
          (case splitLines cs of [] \<Rightarrow> [[c]] | l # ls \<Rightarrow> (c # l) # ls)" by auto
      moreover from False notLF 2 have "splitLines cs = spec_splitLines cs" by blast
      ultimately show ?thesis using spec_splitLines_other [OF notLF False] by simp
    qed
  qed
qed

lemma trim_Nil_iff: "trim l = [] \<longleftrightarrow> isBlank l"
proof
  assume "trim l = []"
  then have all: "\<forall>x\<in>set (dropWhile isSpace l). isSpace x"
    by (simp add: trim_def trimEnd_def trimStart_def dropWhile_eq_Nil_conv)
  have "dropWhile isSpace l = []"
  proof (rule ccontr)
    assume ne: "dropWhile isSpace l \<noteq> []"
    then have "\<not> isSpace (hd (dropWhile isSpace l))" by (rule hd_dropWhile)
    moreover from ne have "hd (dropWhile isSpace l) \<in> set (dropWhile isSpace l)" by simp
    ultimately show False using all by blast
  qed
  then show "isBlank l" by (simp add: isBlank_def dropWhile_eq_Nil_conv list_all_iff)
next
  assume "isBlank l"
  then have "dropWhile isSpace l = []" by (simp add: isBlank_def dropWhile_eq_Nil_conv list_all_iff)
  then show "trim l = []" by (simp add: trim_def trimEnd_def trimStart_def del: dropWhile_eq_Nil_conv)
qed

lemma foldl_lineStep:
  "foldl (lineStep dateTime) acc ils =
     \<lparr> entries = entries acc
          @ List.map_filter (lineResult dateTime) (filter (\<lambda>il. \<not> isBlank (snd il)) ils),
       skipped = skipped acc
          + length (filter (\<lambda>il. lineResult dateTime il = None)
              (filter (\<lambda>il. \<not> isBlank (snd il)) ils)) \<rparr>"
proof (induction ils arbitrary: acc)
  case Nil
  show ?case by (simp add: List.map_filter_simps)
next
  case (Cons il ils)
  show ?case
  proof (cases "isBlank (snd il)")
    case True
    then have "lineStep dateTime acc il = acc"
      by (simp add: lineStep_def trim_Nil_iff)
    with True Cons show ?thesis by simp
  next
    case False
    then have ne: "trim (snd il) \<noteq> []" by (simp add: trim_Nil_iff)
    show ?thesis
    proof (cases "lineResult dateTime il")
      case None
      with ne have "lineStep dateTime acc il = acc\<lparr>skipped := skipped acc + 1\<rparr>"
        by (simp add: lineStep_def lineResult_def)
      with None False Cons show ?thesis by (simp add: List.map_filter_simps)
    next
      case (Some e)
      with ne have "lineStep dateTime acc il = acc\<lparr>entries := entries acc @ [e]\<rparr>"
        by (simp add: lineStep_def lineResult_def)
      with Some False Cons show ?thesis by (simp add: List.map_filter_simps)
    qed
  qed
qed

lemma map_filter_count:
  "length (List.map_filter f xs) + length (filter (\<lambda>x. f x = None) xs) = length xs"
  by (induction xs) (auto simp: List.map_filter_simps split: option.splits)

lemma filter_snd_enumerate:
  "length (filter (\<lambda>il. P (snd il)) (enumerate n ls)) = length (filter P ls)"
  by (induction ls arbitrary: n) auto


text \<open>
  Claim C1. For every input text, \<open>parseLogText\<close> cuts it at each line feed and at each
  carriage return directly followed by a line feed. A blank or whitespace-only line gives
  neither an entry nor a skip. Every other line gives, in the order of the lines, either
  the one entry the line parser returns for it or one more skip, so the number of entries
  plus \<open>skipped\<close> is the number of non-blank lines.
\<close>

theorem parseLogText_lines:
  "splitLines rawText = spec_splitLines rawText
   \<and> entries (parseLogText dateTime rawText)
       = List.map_filter (lineResult dateTime)
           (filter (\<lambda>il. \<not> isBlank (snd il)) (enumerate 0 (splitLines rawText)))
   \<and> skipped (parseLogText dateTime rawText)
       = length (filter (\<lambda>il. lineResult dateTime il = None)
           (filter (\<lambda>il. \<not> isBlank (snd il)) (enumerate 0 (splitLines rawText))))
   \<and> length (entries (parseLogText dateTime rawText)) + skipped (parseLogText dateTime rawText)
       = length (filter (\<lambda>l. \<not> isBlank l) (splitLines rawText))"
proof -
  let ?ils = "filter (\<lambda>il. \<not> isBlank (snd il)) (enumerate 0 (splitLines rawText))"
  have r: "parseLogText dateTime rawText =
     \<lparr> entries = List.map_filter (lineResult dateTime) ?ils,
       skipped = length (filter (\<lambda>il. lineResult dateTime il = None) ?ils) \<rparr>"
    by (simp add: parseLogText_def foldl_lineStep)
  have "length ?ils = length (filter (\<lambda>l. \<not> isBlank l) (splitLines rawText))"
    by (rule filter_snd_enumerate)
  with r map_filter_count [of "lineResult dateTime" ?ils] splitLines_refines show ?thesis
    by simp
qed



section \<open>Properties of the line parser\<close>

lemma not_digit_Z: "\<not> isDigit CHR ''Z''"
  by (simp add: isDigit_def charCode_def)

lemma not_space_bracket: "\<not> isSpace CHR ''[''"
  by (simp add: isSpace_def LF_def CR_def SP_def)

lemma matchTimestamp_shape:
  assumes "isTimestampShape ts"
  shows "matchTimestamp (ts @ rest) = Some (ts, rest)"
proof -
  let ?h = "take 20 ts" and ?d = "drop 20 ts"
  from assms have h: "list_all2 patChar tsHead ?h" and ne: "butlast ?d \<noteq> []"
    and dig: "list_all isDigit (butlast ?d)" and z: "last ts = CHR ''Z''"
    by (simp_all add: isTimestampShape_def)
  from h have len: "length ?h = 20" by (auto dest: list_all2_lengthD simp: tsHead_def)
  from ne have dne: "?d \<noteq> []" by auto
  then have "last ?d = last ts" by simp
  with z dne have d: "?d = butlast ?d @ ''Z''" by (metis append_butlast_last_id)
  from len have t: "take 20 (ts @ rest) = ?h" by (simp add: min_def split: if_splits)
  from len have "length ts \<ge> 20" by simp
  then have dr: "drop 20 (ts @ rest) = butlast ?d @ CHR ''Z'' # rest"
    using d by (metis append.assoc append_Cons append_Nil drop_append diff_is_0_eq drop0)
  from dig have alld: "\<forall>x\<in>set (butlast ?d). isDigit x" by (simp add: list_all_iff)
  have tw: "takeWhile isDigit (butlast ?d @ CHR ''Z'' # rest) = butlast ?d"
    using alld not_digit_Z by (simp add: takeWhile_append2)
  have dw: "dropWhile isDigit (butlast ?d @ CHR ''Z'' # rest) = CHR ''Z'' # rest"
    using alld not_digit_Z by (simp add: dropWhile_append2)
  have e: "?h @ butlast ?d @ ''Z'' = ts" using d by (metis append_take_drop_id)
  show ?thesis unfolding matchTimestamp_def Let_def t dr tw dw e
    using h ne by simp
qed

lemma matchSpaces_gap:
  assumes "isGap ws"
  shows "matchSpaces (ws @ rest) = Some (dropWhile isSpace rest)"
proof -
  from assms have ne: "ws \<noteq> []" and all: "\<forall>x\<in>set ws. isSpace x"
    by (simp_all add: isGap_def list_all_iff)
  from ne all have "isSpace (hd (ws @ rest))" by (cases ws) auto
  moreover from all have "dropWhile isSpace (ws @ rest) = dropWhile isSpace rest"
    by (simp add: dropWhile_append2)
  ultimately show ?thesis using ne by (simp add: matchSpaces_def)
qed

lemma matchBlock_text:
  assumes "isBlockText b"
  shows "matchBlock (CHR ''['' # b @ CHR '']'' # rest) = Some (b, rest)"
proof -
  from assms have ne: "b \<noteq> []" and all: "\<forall>x\<in>set b. x \<noteq> CHR '']''"
    by (auto simp: isBlockText_def)
  have "takeWhile (\<lambda>x. x \<noteq> CHR '']'') (b @ CHR '']'' # rest) = b"
    using all by (simp add: takeWhile_append2)
  moreover have "dropWhile (\<lambda>x. x \<noteq> CHR '']'') (b @ CHR '']'' # rest) = CHR '']'' # rest"
    using all by (simp add: dropWhile_append2)
  ultimately show ?thesis using ne by (simp add: matchBlock_def Let_def)
qed

lemma matchRest_payload:
  assumes "isPayloadText p"
  shows "matchRest (dropWhile isSpace p) = Some (dropWhile isSpace p)"
proof -
  have "set (dropWhile isSpace p) \<subseteq> set p" by (rule set_dropWhileD [THEN subsetI])
  with assms have "\<not> list_ex isLineTerminator (dropWhile isSpace p)"
    by (auto simp: isPayloadText_def list_ex_iff)
  then show ?thesis by (simp add: matchRest_def)
qed

lemma matchLogLine_grammar:
  assumes "isTimestampShape ts" "isGap ws1" "isBlockText lvl" "isGap ws2" "isBlockText loc"
    "isGap ws3" "isPayloadText payload"
  shows "matchLogLine (logLine ts ws1 lvl ws2 loc ws3 payload)
           = Some (ts, lvl, loc, dropWhile isSpace payload)"
proof -
  let ?r5 = "ws3 @ payload"
  let ?r4 = "CHR ''['' # loc @ CHR '']'' # ?r5"
  let ?r3 = "ws2 @ ?r4"
  let ?r2 = "CHR ''['' # lvl @ CHR '']'' # ?r3"
  let ?r1 = "ws1 @ ?r2"
  have line: "logLine ts ws1 lvl ws2 loc ws3 payload = ts @ ?r1" by (simp add: logLine_def)
  have s1: "matchTimestamp (ts @ ?r1) = Some (ts, ?r1)" using assms(1) by (rule matchTimestamp_shape)
  have s2: "matchSpaces ?r1 = Some ?r2"
    using matchSpaces_gap [OF assms(2), of ?r2] not_space_bracket by simp
  have s3: "matchBlock ?r2 = Some (lvl, ?r3)" using assms(3) by (rule matchBlock_text)
  have s4: "matchSpaces ?r3 = Some ?r4"
    using matchSpaces_gap [OF assms(4), of ?r4] not_space_bracket by simp
  have s5: "matchBlock ?r4 = Some (loc, ?r5)" using assms(5) by (rule matchBlock_text)
  have s6: "matchSpaces ?r5 = Some (dropWhile isSpace payload)"
    using assms(6) by (rule matchSpaces_gap)
  have s7: "matchRest (dropWhile isSpace payload) = Some (dropWhile isSpace payload)"
    using assms(7) by (rule matchRest_payload)
  show ?thesis unfolding line matchLogLine_def by (simp only: s1 s2 s3 s4 s5 s6 s7 option.case prod.case)
qed

lemma parseLine_grammar:
  assumes "isTimestampShape ts" "isGap ws1" "isBlockText lvl" "isGap ws2" "isBlockText loc"
    "isGap ws3" "isPayloadText payload"
  shows "parseLine dateTime (logLine ts ws1 lvl ws2 loc ws3 payload) index =
     Some \<lparr> id' = ts @ ''-'' @ showNat index,
            raw = logLine ts ws1 lvl ws2 loc ws3 payload,
            timestampRaw = ts,
            timestamp = dateTime ts,
            level = toLowerCase (trim lvl),
            sourceFile = fst (parseLocation loc),
            sourceLine = snd (parseLocation loc),
            message = fst (splitPayload (dropWhile isSpace payload)),
            metadata = snd (splitPayload (dropWhile isSpace payload)) \<rparr>"
proof -
  have "parseTimestamp dateTime ts = dateTime ts"
    by (simp add: parseTimestamp_def split: option.splits)
  then show ?thesis
    by (simp add: parseLine_def matchLogLine_grammar [OF assms])
qed

text \<open>
  Claim C4 as written makes \<open>timestamp\<close> absent for every timestamp substring that is not
  a valid calendar timestamp. \<open>parseTimestamp\<close> leaves the question to \<open>Date\<close>, and V8
  does not reject the 30th of February: it answers the 1st of March.
\<close>

theorem rolled_over_timestamp_kept:
  "isTimestampShape ''2024-02-30T00:00:00.000Z''
   \<and> \<not> isCalendarTimestamp ''2024-02-30T00:00:00.000Z''
   \<and> map timestampRaw (entries (parseLogText v8Date
         ''2024-02-30T00:00:00.000Z [warn] [a.py:1] hi'')) = [''2024-02-30T00:00:00.000Z'']
   \<and> map timestamp (entries (parseLogText v8Date
         ''2024-02-30T00:00:00.000Z [warn] [a.py:1] hi'')) = [Some 1709251200000]"
  by code_simp

text \<open>
  Claim C4, as amended. Every line that matches the four-segment grammar gives an entry,
  whatever its timestamp substring: \<open>timestampRaw\<close> is the captured substring, and
  \<open>timestamp\<close> is what the platform's \<open>Date\<close> makes of it, absent exactly when \<open>Date\<close>
  answers \<open>NaN\<close>, as it does for \<open>2024-99-99T00:00:00.000Z\<close>. The validity of the
  timestamp never rejects a structural match.
\<close>

theorem invalid_timestamp_accepted:
  assumes "isTimestampShape ts" "isGap ws1" "isBlockText lvl" "isGap ws2" "isBlockText loc"
    "isGap ws3" "isPayloadText payload"
  shows "\<exists>e. parseLine dateTime (logLine ts ws1 lvl ws2 loc ws3 payload) index = Some e
           \<and> timestampRaw e = ts \<and> timestamp e = dateTime ts
           \<and> (timestamp e = None \<longleftrightarrow> dateTime ts = None)"
  by (simp add: parseLine_grammar [OF assms])

theorem invalid_timestamp_accepted_witness:
  "isTimestampShape ''2024-99-99T00:00:00.000Z'' \<and> isGap '' '' \<and> isBlockText ''warn''
   \<and> isBlockText ''a.py:1'' \<and> isPayloadText ''hi''
   \<and> \<not> isCalendarTimestamp ''2024-99-99T00:00:00.000Z''
   \<and> v8Date ''2024-99-99T00:00:00.000Z'' = None
   \<and> (\<exists>e. parseLine v8Date ''2024-99-99T00:00:00.000Z [warn] [a.py:1] hi'' 2 = Some e
           \<and> timestamp e = None \<and> timestampRaw e = ''2024-99-99T00:00:00.000Z'')"
proof -
  have 1: "isTimestampShape ''2024-99-99T00:00:00.000Z''" by code_simp
  have 2: "isGap '' ''" by code_simp
  have 3: "isBlockText ''warn''" by code_simp
  have 4: "isBlockText ''a.py:1''" by code_simp
  have 5: "isPayloadText ''hi''" by code_simp
  have 6: "v8Date ''2024-99-99T00:00:00.000Z'' = None" by code_simp
  have 7: "logLine ''2024-99-99T00:00:00.000Z'' '' '' ''warn'' '' '' ''a.py:1'' '' '' ''hi''
     = ''2024-99-99T00:00:00.000Z [warn] [a.py:1] hi''" by (simp add: logLine_def)
  have 8: "\<not> isCalendarTimestamp ''2024-99-99T00:00:00.000Z''" by code_simp
  show ?thesis
    using invalid_timestamp_accepted [where dateTime = v8Date and index = 2, OF 1 2 3 2 4 2 5]
      1 2 3 4 5 6 8 unfolding 7 by auto
qed

lemma parseLocation_no_colon:
  "CHR '':'' \<notin> set block \<Longrightarrow> parseLocation block = (trim block, None)"
  by (simp add: parseLocation_def lastIndexOf_def)

text \<open>
  Claim C10. A line that matches the grammar and whose source block holds no colon still
  gives an entry: \<open>sourceFile\<close> is the whole block, trimmed, and \<open>sourceLine\<close> is absent.
\<close>

theorem source_without_colon:
  assumes "isTimestampShape ts" "isGap ws1" "isBlockText lvl" "isGap ws2" "isBlockText loc"
    "isGap ws3" "isPayloadText payload"
    and "CHR '':'' \<notin> set loc"
  shows "\<exists>e. parseLine dateTime (logLine ts ws1 lvl ws2 loc ws3 payload) index = Some e
           \<and> sourceFile e = trim loc \<and> sourceLine e = None"
  using parseLocation_no_colon [OF assms(8)] by (simp add: parseLine_grammar [OF assms(1-7)])

theorem source_without_colon_witness:
  "isTimestampShape ''2024-04-12T05:41:11.337Z'' \<and> isGap '' '' \<and> isBlockText ''info''
   \<and> isBlockText '' main '' \<and> isPayloadText ''started'' \<and> CHR '':'' \<notin> set '' main ''
   \<and> (\<exists>e. parseLine sampleDate ''2024-04-12T05:41:11.337Z [info] [ main ] started'' 0 = Some e
           \<and> sourceFile e = ''main'' \<and> sourceLine e = None)"
proof -
  have 1: "isTimestampShape ''2024-04-12T05:41:11.337Z''" by code_simp
  have 2: "isGap '' ''" by code_simp
  have 3: "isBlockText ''info''" by code_simp
  have 4: "isBlockText '' main ''" by code_simp
  have 5: "isPayloadText ''started''" by code_simp
  have 6: "CHR '':'' \<notin> set '' main ''" by simp
  have 7: "logLine ''2024-04-12T05:41:11.337Z'' '' '' ''info'' '' '' '' main '' '' '' ''started''
     = ''2024-04-12T05:41:11.337Z [info] [ main ] started''" by (simp add: logLine_def)
  have 8: "trim '' main '' = ''main''" by code_simp
  show ?thesis
    using source_without_colon [where dateTime = sampleDate and index = 0, OF 1 2 3 2 4 2 5 6]
      1 2 3 4 5 6 unfolding 7 8 by simp
qed

lemma matchTimestamp_sound:
  assumes "matchTimestamp s = Some (ts, r)"
  shows "s = ts @ r \<and> isTimestampShape ts"
proof -
  let ?h = "take 20 s" and ?d = "drop 20 s"
  let ?f = "takeWhile isDigit ?d" and ?r = "dropWhile isDigit ?d"
  from assms have h: "list_all2 patChar tsHead ?h" and f: "?f \<noteq> []" and r: "?r \<noteq> []"
    and z: "hd ?r = CHR ''Z''" and ts: "ts = ?h @ ?f @ ''Z''" and rr: "r = tl ?r"
    by (auto simp: matchTimestamp_def Let_def split: if_splits)
  from h have len: "length ?h = 20" by (auto dest: list_all2_lengthD simp: tsHead_def)
  from r z rr have r': "?r = CHR ''Z'' # r" by (cases ?r) auto
  have "s = ?h @ ?d" by simp
  also have "?d = ?f @ ?r" by simp
  finally have s: "s = ts @ r" using ts r' by simp
  from len ts have t20: "take 20 ts = ?h" by simp
  from len ts have d20: "drop 20 ts = ?f @ ''Z''" by simp
  have "list_all isDigit ?f" by (auto simp: list_all_iff dest: set_takeWhileD)
  with h f t20 d20 ts have "isTimestampShape ts"
    by (simp add: isTimestampShape_def butlast_append)
  with s show ?thesis by blast
qed

lemma matchSpaces_sound:
  assumes "matchSpaces s = Some r"
  shows "\<exists>ws. s = ws @ r \<and> isGap ws \<and> (r = [] \<or> \<not> isSpace (hd r))"
proof -
  from assms have ne: "s \<noteq> []" and sp: "isSpace (hd s)" and r: "r = dropWhile isSpace s"
    by (auto simp: matchSpaces_def split: if_splits)
  let ?ws = "takeWhile isSpace s"
  from ne sp have "?ws \<noteq> []" by (cases s) auto
  moreover have "list_all isSpace ?ws" by (auto simp: list_all_iff dest: set_takeWhileD)
  moreover have "s = ?ws @ r" using r by simp
  moreover have "r = [] \<or> \<not> isSpace (hd r)" using r hd_dropWhile [of isSpace s] by auto
  ultimately show ?thesis by (auto simp: isGap_def)
qed

lemma matchBlock_sound:
  assumes "matchBlock s = Some (b, r)"
  shows "s = CHR ''['' # b @ CHR '']'' # r \<and> isBlockText b"
proof -
  from assms obtain c t where s: "s = c # t" by (cases s) (auto simp: matchBlock_def)
  let ?b = "takeWhile (\<lambda>x. x \<noteq> CHR '']'') t" and ?r = "dropWhile (\<lambda>x. x \<noteq> CHR '']'') t"
  from assms s have c: "c = CHR ''[''" and b: "b = ?b" and bne: "?b \<noteq> []"
    and rne: "?r \<noteq> []" and r: "r = tl ?r"
    by (auto simp: matchBlock_def Let_def split: if_splits)
  from rne have "hd ?r = CHR '']''" using hd_dropWhile [of "\<lambda>x. x \<noteq> CHR '']''" t] by auto
  with rne r have r': "?r = CHR '']'' # r" by (cases ?r) auto
  have "t = ?b @ ?r" by simp
  with s c b r' have "s = CHR ''['' # b @ CHR '']'' # r" by simp
  moreover have "CHR '']'' \<notin> set ?b" by (auto dest: set_takeWhileD)
  ultimately show ?thesis using b bne by (simp add: isBlockText_def)
qed

lemma matchRest_sound: "matchRest s = Some p \<Longrightarrow> p = s \<and> isPayloadText p"
  by (auto simp: matchRest_def isPayloadText_def split: if_splits)

text \<open>The matcher accepts the lines of the grammar and no others.\<close>

lemma matchLogLine_sound:
  assumes "matchLogLine line = Some (ts, lvl, loc, payload)"
  shows "\<exists>ws1 ws2 ws3. line = logLine ts ws1 lvl ws2 loc ws3 payload
           \<and> isTimestampShape ts \<and> isGap ws1 \<and> isBlockText lvl \<and> isGap ws2
           \<and> isBlockText loc \<and> isGap ws3 \<and> isPayloadText payload
           \<and> (payload = [] \<or> \<not> isSpace (hd payload))"
proof -
  from assms obtain r1 r2 r3 r4 r5 r6 where
    m1: "matchTimestamp line = Some (ts, r1)" and m2: "matchSpaces r1 = Some r2"
    and m3: "matchBlock r2 = Some (lvl, r3)" and m4: "matchSpaces r3 = Some r4"
    and m5: "matchBlock r4 = Some (loc, r5)" and m6: "matchSpaces r5 = Some r6"
    and m7: "matchRest r6 = Some payload"
    by (auto simp: matchLogLine_def split: option.splits)
  from matchTimestamp_sound [OF m1] have s1: "line = ts @ r1" and t: "isTimestampShape ts"
    by simp_all
  from matchSpaces_sound [OF m2] obtain ws1 where s2: "r1 = ws1 @ r2" and g1: "isGap ws1"
    by blast
  from matchBlock_sound [OF m3] have s3: "r2 = CHR ''['' # lvl @ CHR '']'' # r3"
    and b1: "isBlockText lvl" by simp_all
  from matchSpaces_sound [OF m4] obtain ws2 where s4: "r3 = ws2 @ r4" and g2: "isGap ws2"
    by blast
  from matchBlock_sound [OF m5] have s5: "r4 = CHR ''['' # loc @ CHR '']'' # r5"
    and b2: "isBlockText loc" by simp_all
  from matchSpaces_sound [OF m6] obtain ws3 where s6: "r5 = ws3 @ r6" and g3: "isGap ws3"
    and e: "r6 = [] \<or> \<not> isSpace (hd r6)" by blast
  from matchRest_sound [OF m7] have s7: "payload = r6" and p: "isPayloadText payload"
    by blast+
  have "line = logLine ts ws1 lvl ws2 loc ws3 payload"
    by (simp add: logLine_def s1 s2 s3 s4 s5 s6 s7)
  with t g1 b1 g2 b2 g3 p e s7 show ?thesis by blast
qed

text \<open>Well-formed timestamp, level and source segments with nothing after them.\<close>

lemma no_payload_no_match:
  assumes "isTimestampShape ts" "isGap ws1" "isBlockText lvl" "isGap ws2" "isBlockText loc"
  shows "parseLine dateTime (ts @ ws1 @ ''['' @ lvl @ '']'' @ ws2 @ ''['' @ loc @ '']'') index
           = None"
proof -
  let ?r4 = "CHR ''['' # loc @ CHR '']'' # []"
  let ?r3 = "ws2 @ ?r4"
  let ?r2 = "CHR ''['' # lvl @ CHR '']'' # ?r3"
  let ?r1 = "ws1 @ ?r2"
  have line: "ts @ ws1 @ ''['' @ lvl @ '']'' @ ws2 @ ''['' @ loc @ '']'' = ts @ ?r1" by simp
  have s1: "matchTimestamp (ts @ ?r1) = Some (ts, ?r1)" using assms(1) by (rule matchTimestamp_shape)
  have s2: "matchSpaces ?r1 = Some ?r2"
    using matchSpaces_gap [OF assms(2), of ?r2] not_space_bracket by simp
  have s3: "matchBlock ?r2 = Some (lvl, ?r3)" using assms(3) by (rule matchBlock_text)
  have s4: "matchSpaces ?r3 = Some ?r4"
    using matchSpaces_gap [OF assms(4), of ?r4] not_space_bracket by simp
  have s5: "matchBlock ?r4 = Some (loc, [])" using assms(5) by (rule matchBlock_text)
  have s6: "matchSpaces [] = None" by (simp add: matchSpaces_def)
  have "matchLogLine (ts @ ?r1) = None"
    unfolding matchLogLine_def by (simp only: s1 s2 s3 s4 s5 s6 option.case prod.case)
  then show ?thesis unfolding line by (simp add: parseLine_def)
qed

text \<open>
  Claim C5 says that a line with well-formed timestamp, level and source segments and
  nothing after the source block gives an entry with empty message and empty metadata.
  \<open>splitPayload\<close> has a branch for the empty payload, but the last \<open>\s+\<close> of the
  regular expression needs a white-space character after the source block, and the batch
  driver trims every line before it parses it: the line is rejected and counted as skipped,
  with or without trailing white space in the input.
\<close>

theorem empty_payload_line_skipped:
  "parseLine sampleDate ''2024-04-12T05:41:11.337Z [info] [a.py:1]'' 0 = None
   \<and> parseLogText sampleDate ''2024-04-12T05:41:11.337Z [info] [a.py:1]''
       = \<lparr>entries = [], skipped = 1\<rparr>
   \<and> parseLogText sampleDate ''2024-04-12T05:41:11.337Z [info] [a.py:1] ''
       = \<lparr>entries = [], skipped = 1\<rparr>
   \<and> splitPayload [] = ([], [])"
  by code_simp


section \<open>Properties of the key look-ahead\<close>

lemma skipSpaces_takeWhile:
  "skipSpaces block i = i + length (takeWhile (\<lambda>c. c = SP) (drop i block))"
proof (induction block i rule: skipSpaces.induct)
  case (1 block i)
  show ?case
  proof (cases "i < length block")
    case False
    then show ?thesis by (subst skipSpaces.simps) simp
  next
    case True
    then have d: "drop i block = block ! i # drop (i + 1) block"
      by (simp add: Cons_nth_drop_Suc)
    show ?thesis
    proof (cases "block ! i = SP")
      case False
      with True d show ?thesis by (subst skipSpaces.simps) simp
    next
      case sp: True
      with True 1 have "skipSpaces block (i + 1)
          = i + 1 + length (takeWhile (\<lambda>c. c = SP) (drop (i + 1) block))" by blast
      with True sp d show ?thesis by (subst skipSpaces.simps) simp
    qed
  qed
qed

lemma skipKeyChars_takeWhile:
  "skipKeyChars block i = i + length (takeWhile isKeyChar (drop i block))"
proof (induction block i rule: skipKeyChars.induct)
  case (1 block i)
  show ?case
  proof (cases "i < length block")
    case False
    then show ?thesis by (subst skipKeyChars.simps) simp
  next
    case True
    then have d: "drop i block = block ! i # drop (i + 1) block"
      by (simp add: Cons_nth_drop_Suc)
    show ?thesis
    proof (cases "isKeyChar (block ! i)")
      case False
      with True d show ?thesis by (subst skipKeyChars.simps) simp
    next
      case kc: True
      with True 1 have "skipKeyChars block (i + 1)
          = i + 1 + length (takeWhile isKeyChar (drop (i + 1) block))" by blast
      with True kc d show ?thesis by (subst skipKeyChars.simps) simp
    qed
  qed
qed

lemma drop_takeWhile_length:
  "drop (i + length (takeWhile P (drop i xs))) xs = dropWhile P (drop i xs)"
proof -
  have "drop (i + length (takeWhile P (drop i xs))) xs
      = drop (length (takeWhile P (drop i xs))) (drop i xs)"
    by (simp add: add.commute)
  then show ?thesis by (simp add: dropWhile_eq_drop)
qed

lemma drop_skipSpaces: "drop (skipSpaces block i) block = dropWhile (\<lambda>c. c = SP) (drop i block)"
  by (simp only: skipSpaces_takeWhile drop_takeWhile_length)

lemma drop_skipKeyChars: "drop (skipKeyChars block i) block = dropWhile isKeyChar (drop i block)"
  by (simp only: skipKeyChars_takeWhile drop_takeWhile_length)

text \<open>The look-ahead on the rest of the string.\<close>

lemma isKeyAhead_rest:
  "isKeyAhead block start =
     (case dropWhile isKeyChar (dropWhile (\<lambda>c. c = SP) (drop start block)) of
        [] \<Rightarrow> False | c # _ \<Rightarrow> c = CHR ''='')"
proof -
  let ?ks = "skipSpaces block start"
  let ?ix = "skipKeyChars block ?ks"
  let ?r = "dropWhile isKeyChar (dropWhile (\<lambda>c. c = SP) (drop start block))"
  have r: "drop ?ix block = ?r" by (simp only: drop_skipKeyChars drop_skipSpaces)
  have le: "?ks \<le> ?ix" by (rule skipKeyChars_ge)
  show ?thesis
  proof (cases "?ix < length block")
    case True
    then have "drop ?ix block = block ! ?ix # drop (Suc ?ix) block"
      by (simp add: Cons_nth_drop_Suc)
    with r have "?r = block ! ?ix # drop (Suc ?ix) block" by simp
    moreover from True le have "?ks < length block" by simp
    ultimately show ?thesis using True by (simp add: isKeyAhead_def Let_def)
  next
    case False
    then have "drop ?ix block = []" by simp
    with r have "?r = []" by simp
    with False show ?thesis by (simp add: isKeyAhead_def Let_def del: dropWhile_eq_Nil_conv)
  qed
qed

lemma not_keyChar_eq: "\<not> isKeyChar CHR ''=''"
  by (simp add: isKeyChar_def isDigit_def charCode_def)






text \<open>
  The look-ahead of the code against the key start of the specification: the code also
  accepts the position when, after the spaces, \<open>=\<close> comes at once, with no identifier
  character before it.
\<close>

lemma key_run_cases:
  "(case dropWhile isKeyChar r of [] \<Rightarrow> False | c # _ \<Rightarrow> c = CHR ''='') \<longleftrightarrow>
     (takeWhile isKeyChar r \<noteq> [] \<and> dropWhile isKeyChar r \<noteq> []
        \<and> hd (dropWhile isKeyChar r) = CHR ''='')
     \<or> (case r of [] \<Rightarrow> False | c # _ \<Rightarrow> c = CHR ''='')"
proof (cases r)
  case Nil
  then show ?thesis by simp
next
  case (Cons c cs)
  show ?thesis
  proof (cases "isKeyChar c")
    case True
    with not_keyChar_eq have "c \<noteq> CHR ''=''" by auto
    with Cons True show ?thesis
      by (cases "dropWhile isKeyChar cs") (simp_all del: dropWhile_eq_Nil_conv)
  next
    case False
    with Cons show ?thesis by simp
  qed
qed

lemma isKeyAhead_spec:
  "isKeyAhead block start \<longleftrightarrow>
     spec_keyStart block start
     \<or> (case dropWhile (\<lambda>c. c = SP) (drop start block) of [] \<Rightarrow> False | c # _ \<Rightarrow> c = CHR ''='')"
  unfolding isKeyAhead_rest spec_keyStart_def Let_def by (rule key_run_cases)

lemma spec_keyStart_isKeyAhead: "spec_keyStart block start \<Longrightarrow> isKeyAhead block start"
  by (simp add: isKeyAhead_spec)

text \<open>
  Claim C6 says that a position is a key start only if the run of identifier characters
  after the spaces is non-empty and directly followed by \<open>=\<close>, so that the payload
  \<open>=5\<close> is message text with empty metadata. \<open>isKeyAhead\<close> compares \<open>keyStart\<close> with
  the length of the block, which the test on \<open>index\<close> already implies, and never with
  \<open>index\<close>: the empty run passes. The payload \<open>=5\<close> becomes an empty message and the
  metadata pair of the empty key and \<open>5\<close>.
\<close>

theorem empty_key_accepted:
  "isKeyAhead ''=5'' 0 \<and> \<not> spec_keyStart ''=5'' 0
   \<and> splitPayload ''=5'' = ([], [([], ''5'')])
   \<and> map message (entries (parseLogText sampleDate
         ''2024-04-12T05:41:11.337Z [info] [a.py:1] =5'')) = [[]]
   \<and> map metadata (entries (parseLogText sampleDate
         ''2024-04-12T05:41:11.337Z [info] [a.py:1] =5'')) = [[([], ''5'')]]"
  by code_simp

section \<open>Properties of the value scan\<close>

lemma depthStep_counters:
  "depthStep c (p, b, r) =
     (counterStep CHR ''('' CHR '')'' p c, counterStep CHR ''['' CHR '']'' b c,
      counterStep CHR ''{'' CHR ''}'' r c)"
  by (simp add: counterStep_def)

lemma foldl_depthStep:
  "foldl (\<lambda>d c. depthStep c d) (p, b, r) s =
     (foldl (counterStep CHR ''('' CHR '')'') p s, foldl (counterStep CHR ''['' CHR '']'') b s,
      foldl (counterStep CHR ''{'' CHR ''}'') r s)"
  by (induction s arbitrary: p b r) (simp_all add: depthStep_counters del: depthStep.simps)

lemma depthStep_SP: "depthStep SP d = d"
  by (cases d) (simp add: SP_def)

lemma slice_step:
  assumes "i < k" "i < length block"
  shows "slice block i k = block ! i # slice block (i + 1) k"
proof -
  from assms(2) have "drop i block = block ! i # drop (i + 1) block"
    by (simp add: Cons_nth_drop_Suc)
  moreover from assms(1) obtain m where "k - i = Suc m" and "k - (i + 1) = m"
    by (cases "k - i") auto
  ultimately show ?thesis by (simp add: slice_def)
qed

lemma slice_same: "slice block i i = []"
  by (simp add: slice_def)

lemma stopAt_shift:
  assumes "i < k" "i < length block"
  shows "stopAt block i d k = stopAt block (i + 1) (depthStep (block ! i) d) k"
  by (simp add: stopAt_def slice_step [OF assms])

lemma readValueLoop_first:
  "i \<le> length block \<Longrightarrow>
     i \<le> readValueLoop block i d \<and> readValueLoop block i d \<le> length block
     \<and> (readValueLoop block i d < length block \<longrightarrow> stopAt block i d (readValueLoop block i d))
     \<and> (\<forall>k. i \<le> k \<and> k < readValueLoop block i d \<longrightarrow> \<not> stopAt block i d k)"
proof (induction block i d rule: readValueLoop.induct)
  case (1 block i d)
  show ?case
  proof (cases "i < length block")
    case False
    with "1.prems" have "readValueLoop block i d = i"
      by (subst readValueLoop.simps) simp
    with False "1.prems" show ?thesis by auto
  next
    case lt: True
    let ?stop = "block ! i = SP \<and> depthStep (block ! i) d = (0, 0, 0) \<and> isKeyAhead block (i + 1)"
    have here: "stopAt block i d i = ?stop"
    proof (cases "block ! i = SP")
      case True
      then show ?thesis by (simp add: stopAt_def slice_same depthStep_SP)
    next
      case False
      then show ?thesis by (simp add: stopAt_def)
    qed
    show ?thesis
    proof (cases ?stop)
      case True
      with lt have "readValueLoop block i d = i"
        by (subst readValueLoop.simps) (auto simp: depthStep_SP)
      with lt True here show ?thesis by auto
    next
      case False
      let ?d = "depthStep (block ! i) d"
      let ?n = "readValueLoop block (i + 1) ?d"
      from lt False have eq: "readValueLoop block i d = ?n"
        by (subst readValueLoop.simps) auto
      from lt have "i + 1 \<le> length block" by simp
      with "1.IH" [OF lt False] have ih: "i + 1 \<le> ?n" "?n \<le> length block"
        "?n < length block \<longrightarrow> stopAt block (i + 1) ?d ?n"
        "\<forall>k. i + 1 \<le> k \<and> k < ?n \<longrightarrow> \<not> stopAt block (i + 1) ?d k"
        by blast+
      have a: "?n < length block \<longrightarrow> stopAt block i d ?n"
        using ih(1,3) stopAt_shift [of i ?n block d] lt by simp
      have b: "\<forall>k. i \<le> k \<and> k < ?n \<longrightarrow> \<not> stopAt block i d k"
      proof (intro allI impI)
        fix k assume k: "i \<le> k \<and> k < ?n"
        show "\<not> stopAt block i d k"
        proof (cases "k = i")
          case True
          with here False show ?thesis by simp
        next
          case False
          with k have "i < k" by simp
          with k ih(4) stopAt_shift [of i k block d] lt show ?thesis by simp
        qed
      qed
      from ih(1,2) a b show ?thesis unfolding eq by simp
    qed
  qed
qed

lemma trimEnd_id: "s \<noteq> [] \<Longrightarrow> \<not> isSpace (last s) \<Longrightarrow> trimEnd s = s"
proof -
  assume "s \<noteq> []" "\<not> isSpace (last s)"
  then have "rev s \<noteq> [] \<and> \<not> isSpace (hd (rev s))" by (simp add: hd_rev)
  then have "dropWhile isSpace (rev s) = rev s" by (cases "rev s") auto
  then show ?thesis by (simp add: trimEnd_def)
qed

lemma stopAt_valueEndsAt:
  "i < length block \<Longrightarrow> isKeyAhead block (i + 1) = spec_keyStart block (i + 1) \<Longrightarrow>
     stopAt block start (0, 0, 0) i = valueEndsAt block start i"
  by (auto simp: stopAt_def valueEndsAt_def foldl_depthStep depthOf_def)

text \<open>
  On a block where the look-ahead of the code and the key start of the specification
  agree, the scan ends at the first space at which the three counters are zero and a key
  start follows, or at the end of the block.
\<close>

lemma readValue_first_boundary_agreeing:
  assumes "start \<le> length block" and agree: "\<forall>i. isKeyAhead block i = spec_keyStart block i"
  shows "\<exists>n. readValue block start = (trimEnd (slice block start n), n)
           \<and> start \<le> n \<and> n \<le> length block
           \<and> (n < length block \<longrightarrow> valueEndsAt block start n)
           \<and> (\<forall>i. start \<le> i \<and> i < n \<longrightarrow> \<not> valueEndsAt block start i)
           \<and> (start < n \<and> \<not> isSpace (block ! (n - 1)) \<longrightarrow>
                 fst (readValue block start) = slice block start n)"
proof -
  let ?n = "readValueLoop block start (0, 0, 0)"
  from readValueLoop_first [OF assms(1), of "(0, 0, 0)"]
  have f: "start \<le> ?n" "?n \<le> length block"
    "?n < length block \<longrightarrow> stopAt block start (0, 0, 0) ?n"
    "\<forall>k. start \<le> k \<and> k < ?n \<longrightarrow> \<not> stopAt block start (0, 0, 0) k"
    by blast+
  have rv: "readValue block start = (trimEnd (slice block start ?n), ?n)"
    by (simp add: readValue_def Let_def)
  have a: "?n < length block \<longrightarrow> valueEndsAt block start ?n"
    using f(3) stopAt_valueEndsAt agree by blast
  have b: "\<forall>i. start \<le> i \<and> i < ?n \<longrightarrow> \<not> valueEndsAt block start i"
  proof (intro allI impI)
    fix i assume i: "start \<le> i \<and> i < ?n"
    with f(2) have "i < length block" by simp
    with i f(4) stopAt_valueEndsAt agree show "\<not> valueEndsAt block start i" by blast
  qed
  have c: "start < ?n \<and> \<not> isSpace (block ! (?n - 1)) \<longrightarrow>
      fst (readValue block start) = slice block start ?n"
  proof
    assume h: "start < ?n \<and> \<not> isSpace (block ! (?n - 1))"
    let ?s = "slice block start ?n"
    from h f(2) have len: "length ?s = ?n - start" by (simp add: slice_def)
    with h have ne: "?s \<noteq> []" by auto
    have "last ?s = ?s ! (?n - start - 1)" using ne len by (simp add: last_conv_nth)
    also have "\<dots> = block ! (?n - 1)"
    proof -
      from h have i: "?n - start - 1 < ?n - start" and j: "start + (?n - start - 1) = ?n - 1"
        by arith+
      from f(2) h have "start \<le> length block" by simp
      then have "drop start block ! (?n - start - 1) = block ! (start + (?n - start - 1))"
        by simp
      with i j show ?thesis by (simp add: slice_def del: One_nat_def)
    qed
    finally have "\<not> isSpace (last ?s)" using h by simp
    with ne rv show "fst (readValue block start) = ?s" by (simp add: trimEnd_id)
  qed
  from rv f(1,2) a b c show ?thesis by blast
qed

lemma json_value_whole:
  "readValue ''b={\"a\": 1, \"b\": [1,2]} c=3'' 2 = (''{\"a\": 1, \"b\": [1,2]}'', 22)"
  by code_simp

text \<open>
  Claim C2 says that a value ends at the first space at which the three depth counters are
  zero and a valid key start follows, and that a space not followed by a key start is part
  of the value. \<open>readValue\<close> asks \<open>isKeyAhead\<close>, which takes \<open>=\<close> after the space for
  a key start with an empty key. In the block \<open>k=a =b\<close> no key start follows the space
  at index 3, and the value of \<open>k\<close> is \<open>a =b\<close>; the code ends the value at that space
  and stores \<open>a\<close>, with \<open>b\<close> under the empty key.
\<close>

theorem value_cut_at_empty_key:
  "readValue ''k=a =b'' 2 = (''a'', 3)
   \<and> \<not> spec_keyStart ''k=a =b'' 4
   \<and> \<not> valueEndsAt ''k=a =b'' 2 3
   \<and> map metadata (entries (parseLogText sampleDate
         ''2024-04-12T05:41:11.337Z [info] [a.py:1] k=a =b''))
       = [[(''k'', ''a''), ([], ''b'')]]"
  by code_simp

section \<open>Properties of the metadata start\<close>

lemma afterSpaces_skipSpaces:
  assumes "i \<le> length payload"
  shows "afterSpaces payload i j \<longleftrightarrow> j = skipSpaces payload i"
proof
  let ?d = "drop i payload"
  let ?tw = "takeWhile (\<lambda>c. c = SP) ?d"
  assume "afterSpaces payload i j"
  then have ij: "i \<le> j" and jl: "j \<le> length payload"
    and sp: "\<forall>c\<in>set (slice payload i j). c = SP"
    and stop: "j < length payload \<longrightarrow> payload ! j \<noteq> SP"
    by (simp_all add: afterSpaces_def list_all_iff)
  from ij have d: "?d = slice payload i j @ drop j payload"
    by (simp add: slice_def) (metis add_diff_inverse_nat append_take_drop_id drop_drop
        add.commute not_less)
  have "takeWhile (\<lambda>c. c = SP) (drop j payload) = []"
  proof (cases "j < length payload")
    case True
    then have "drop j payload = payload ! j # drop (Suc j) payload"
      by (simp add: Cons_nth_drop_Suc)
    with stop True show ?thesis by simp
  next
    case False
    then show ?thesis by simp
  qed
  with sp have "?tw = slice payload i j" by (subst d) (simp add: takeWhile_append2)
  moreover from ij jl have "length (slice payload i j) = j - i" by (simp add: slice_def)
  ultimately show "j = skipSpaces payload i" using ij by (simp add: skipSpaces_takeWhile)
next
  let ?d = "drop i payload"
  let ?tw = "takeWhile (\<lambda>c. c = SP) ?d"
  assume j: "j = skipSpaces payload i"
  then have jj: "j = i + length ?tw" by (simp add: skipSpaces_takeWhile)
  have "length ?tw \<le> length ?d" by (rule length_takeWhile_le)
  with assms jj have jl: "j \<le> length payload" by simp
  have "slice payload i j = take (length ?tw) ?d" using jj by (simp add: slice_def)
  also have "\<dots> = ?tw" by (simp add: takeWhile_eq_take [symmetric])
  finally have sl: "slice payload i j = ?tw" .
  have "\<forall>c\<in>set ?tw. c = SP" by (auto dest: set_takeWhileD)
  with sl have all: "list_all (\<lambda>c. c = SP) (slice payload i j)" by (simp add: list_all_iff)
  have "payload ! j \<noteq> SP" if "j < length payload"
  proof -
    have dj: "drop j payload = dropWhile (\<lambda>c. c = SP) ?d" using j by (simp add: drop_skipSpaces)
    from that have "drop j payload = payload ! j # drop (Suc j) payload"
      by (simp add: Cons_nth_drop_Suc)
    with dj have c: "dropWhile (\<lambda>c. c = SP) ?d = payload ! j # drop (Suc j) payload" by simp
    then have ne: "dropWhile (\<lambda>c. c = SP) ?d \<noteq> []" by (simp only: list.distinct not_False_eq_True)
    from c have hd: "hd (dropWhile (\<lambda>c. c = SP) ?d) = payload ! j" by (simp only: list.sel)
    from hd_dropWhile [OF ne] hd show ?thesis by simp
  qed
  with jj jl all show "afterSpaces payload i j" by (simp add: afterSpaces_def)
qed

lemma doubleSpaceBoundary_iff:
  assumes "isKeyAhead payload (skipSpaces payload i) = spec_keyStart payload (skipSpaces payload i)"
  shows "doubleSpaceBoundary payload i j \<longleftrightarrow> doubleAt payload i \<and> j = skipSpaces payload i"
proof (cases "i \<le> length payload")
  case True
  with assms show ?thesis
    by (auto simp: doubleSpaceBoundary_def doubleAt_def afterSpaces_skipSpaces)
next
  case False
  then show ?thesis by (simp add: doubleSpaceBoundary_def doubleAt_def)
qed

lemma singleSpaceBoundary_iff:
  assumes "isKeyAhead payload (skipSpaces payload i) = spec_keyStart payload (skipSpaces payload i)"
  shows "singleSpaceBoundary payload i j \<longleftrightarrow> singleAt payload i \<and> j = skipSpaces payload i"
proof (cases "i \<le> length payload")
  case True
  with assms show ?thesis
    by (auto simp: singleSpaceBoundary_def singleAt_def afterSpaces_skipSpaces)
next
  case False
  then show ?thesis by (simp add: singleSpaceBoundary_def singleAt_def)
qed

lemma doubleSpaceScan_step:
  "doubleSpaceScan payload k =
     (if k + 1 < length payload then
        (if doubleAt payload k then Some (skipSpaces payload k)
         else doubleSpaceScan payload (k + 1))
      else None)"
  by (subst doubleSpaceScan.simps) (auto simp: doubleAt_def Let_def)

lemma singleSpaceScan_step:
  "singleSpaceScan payload k =
     (if k < length payload then
        (if singleAt payload k then Some (skipSpaces payload k)
         else singleSpaceScan payload (k + 1))
      else None)"
  by (subst singleSpaceScan.simps) (auto simp: singleAt_def Let_def)

lemma doubleSpaceScan_first:
  "k \<le> i \<Longrightarrow> doubleAt payload i \<Longrightarrow> (\<forall>i'. k \<le> i' \<and> i' < i \<longrightarrow> \<not> doubleAt payload i')
     \<Longrightarrow> doubleSpaceScan payload k = Some (skipSpaces payload i)"
proof (induction payload k rule: doubleSpaceScan.induct)
  case (1 payload k)
  from "1.prems"(2) have il: "i + 1 < length payload" by (simp add: doubleAt_def)
  with "1.prems"(1) have kl: "k + 1 < length payload" by simp
  show ?case
  proof (cases "k = i")
    case True
    with kl "1.prems"(2) show ?thesis by (subst doubleSpaceScan_step) simp
  next
    case False
    with "1.prems" have nk: "\<not> doubleAt payload k" and ki: "k + 1 \<le> i" by auto
    have "doubleSpaceScan payload (k + 1) = Some (skipSpaces payload i)"
    proof (cases "payload ! k \<noteq> SP \<or> payload ! (k + 1) \<noteq> SP")
      case True
      from "1.IH"(1) [OF kl True ki "1.prems"(2)] "1.prems"(3) show ?thesis by simp
    next
      case f: False
      with nk kl have nka: "\<not> isKeyAhead payload (skipSpaces payload k)"
        by (simp add: doubleAt_def)
      from "1.IH"(2) [OF kl f refl nka ki "1.prems"(2)] "1.prems"(3) show ?thesis by simp
    qed
    with kl nk show ?thesis by (subst doubleSpaceScan_step) simp
  qed
qed

lemma doubleSpaceScan_none:
  "(\<forall>i'. k \<le> i' \<longrightarrow> \<not> doubleAt payload i') \<Longrightarrow> doubleSpaceScan payload k = None"
proof (induction payload k rule: doubleSpaceScan.induct)
  case (1 payload k)
  show ?case
  proof (cases "k + 1 < length payload")
    case False
    then show ?thesis by (subst doubleSpaceScan_step) simp
  next
    case kl: True
    from "1.prems" have nk: "\<not> doubleAt payload k" by simp
    have "doubleSpaceScan payload (k + 1) = None"
    proof (cases "payload ! k \<noteq> SP \<or> payload ! (k + 1) \<noteq> SP")
      case True
      from "1.IH"(1) [OF kl True] "1.prems" show ?thesis by simp
    next
      case f: False
      with nk kl have nka: "\<not> isKeyAhead payload (skipSpaces payload k)"
        by (simp add: doubleAt_def)
      from "1.IH"(2) [OF kl f refl nka] "1.prems" show ?thesis by simp
    qed
    with kl nk show ?thesis by (subst doubleSpaceScan_step) simp
  qed
qed

lemma singleSpaceScan_first:
  "k \<le> i \<Longrightarrow> singleAt payload i \<Longrightarrow> (\<forall>i'. k \<le> i' \<and> i' < i \<longrightarrow> \<not> singleAt payload i')
     \<Longrightarrow> singleSpaceScan payload k = Some (skipSpaces payload i)"
proof (induction payload k rule: singleSpaceScan.induct)
  case (1 payload k)
  from "1.prems"(2) have il: "i < length payload" by (simp add: singleAt_def)
  with "1.prems"(1) have kl: "k < length payload" by simp
  show ?case
  proof (cases "k = i")
    case True
    with kl "1.prems"(2) show ?thesis by (subst singleSpaceScan_step) simp
  next
    case False
    with "1.prems" have nk: "\<not> singleAt payload k" and ki: "k + 1 \<le> i" by auto
    have "singleSpaceScan payload (k + 1) = Some (skipSpaces payload i)"
    proof (cases "payload ! k \<noteq> SP")
      case True
      from "1.IH"(1) [OF kl True ki "1.prems"(2)] "1.prems"(3) show ?thesis by simp
    next
      case f: False
      with nk kl have nka: "\<not> isKeyAhead payload (skipSpaces payload k)"
        by (simp add: singleAt_def)
      from "1.IH"(2) [OF kl f refl nka ki "1.prems"(2)] "1.prems"(3) show ?thesis by simp
    qed
    with kl nk show ?thesis by (subst singleSpaceScan_step) simp
  qed
qed

lemma singleSpaceScan_none:
  "(\<forall>i'. k \<le> i' \<longrightarrow> \<not> singleAt payload i') \<Longrightarrow> singleSpaceScan payload k = None"
proof (induction payload k rule: singleSpaceScan.induct)
  case (1 payload k)
  show ?case
  proof (cases "k < length payload")
    case False
    then show ?thesis by (subst singleSpaceScan_step) simp
  next
    case kl: True
    from "1.prems" have nk: "\<not> singleAt payload k" by simp
    have "singleSpaceScan payload (k + 1) = None"
    proof (cases "payload ! k \<noteq> SP")
      case True
      from "1.IH"(1) [OF kl True] "1.prems" show ?thesis by simp
    next
      case f: False
      with nk kl have nka: "\<not> isKeyAhead payload (skipSpaces payload k)"
        by (simp add: singleAt_def)
      from "1.IH"(2) [OF kl f refl nka] "1.prems" show ?thesis by simp
    qed
    with kl nk show ?thesis by (subst singleSpaceScan_step) simp
  qed
qed




text \<open>
  On a payload where the look-ahead of the code and the key start of the specification
  agree, and no key starts at position 0, the metadata starts at the first double-space
  boundary, else at the first single-space boundary, else nowhere.
\<close>

lemma metadata_start_precedence_agreeing:
  assumes agree: "\<forall>i. isKeyAhead payload i = spec_keyStart payload i"
    and "\<not> spec_keyStart payload 0"
  shows "(doubleSpaceBoundary payload i j
            \<and> (\<forall>i' j'. i' < i \<longrightarrow> \<not> doubleSpaceBoundary payload i' j')
          \<longrightarrow> findMetadataStart payload = Some j)
       \<and> ((\<forall>i' j'. \<not> doubleSpaceBoundary payload i' j')
            \<and> singleSpaceBoundary payload i j
            \<and> (\<forall>i' j'. i' < i \<longrightarrow> \<not> singleSpaceBoundary payload i' j')
          \<longrightarrow> findMetadataStart payload = Some j)
       \<and> ((\<forall>i' j'. \<not> doubleSpaceBoundary payload i' j')
            \<and> (\<forall>i' j'. \<not> singleSpaceBoundary payload i' j')
          \<longrightarrow> findMetadataStart payload = None \<and> splitPayload payload = (trim payload, []))"
proof -
  from assms have nk: "\<not> isKeyAhead payload 0" by simp
  note bd = doubleSpaceBoundary_iff [OF agree [rule_format]]
    singleSpaceBoundary_iff [OF agree [rule_format]]
  show ?thesis
  proof (intro conjI impI)
    assume h: "doubleSpaceBoundary payload i j
        \<and> (\<forall>i' j'. i' < i \<longrightarrow> \<not> doubleSpaceBoundary payload i' j')"
    then have "doubleAt payload i" and j: "j = skipSpaces payload i"
      and "\<forall>i'. 0 \<le> i' \<and> i' < i \<longrightarrow> \<not> doubleAt payload i'"
      by (simp_all add: bd)
    then have "doubleSpaceScan payload 0 = Some j"
      using doubleSpaceScan_first [of 0 i payload] by simp
    with nk show "findMetadataStart payload = Some j" by (simp add: findMetadataStart_def)
  next
    assume h: "(\<forall>i' j'. \<not> doubleSpaceBoundary payload i' j')
        \<and> singleSpaceBoundary payload i j
        \<and> (\<forall>i' j'. i' < i \<longrightarrow> \<not> singleSpaceBoundary payload i' j')"
    then have "\<forall>i'. 0 \<le> i' \<longrightarrow> \<not> doubleAt payload i'" by (simp add: bd)
    then have d: "doubleSpaceScan payload 0 = None" by (rule doubleSpaceScan_none)
    from h have "singleAt payload i" and j: "j = skipSpaces payload i"
      and "\<forall>i'. 0 \<le> i' \<and> i' < i \<longrightarrow> \<not> singleAt payload i'"
      by (simp_all add: bd)
    then have "singleSpaceScan payload 0 = Some j"
      using singleSpaceScan_first [of 0 i payload] by simp
    with nk d show "findMetadataStart payload = Some j" by (simp add: findMetadataStart_def)
  next
    assume h: "(\<forall>i' j'. \<not> doubleSpaceBoundary payload i' j')
        \<and> (\<forall>i' j'. \<not> singleSpaceBoundary payload i' j')"
    then have "\<forall>i'. 0 \<le> i' \<longrightarrow> \<not> doubleAt payload i'" by (simp add: bd)
    then have d: "doubleSpaceScan payload 0 = None" by (rule doubleSpaceScan_none)
    from h have "\<forall>i'. 0 \<le> i' \<longrightarrow> \<not> singleAt payload i'" by (simp add: bd)
    then have s: "singleSpaceScan payload 0 = None" by (rule singleSpaceScan_none)
    from nk d s show n: "findMetadataStart payload = None" by (simp add: findMetadataStart_def)
    have "trim [] = []" by (simp add: trim_def trimEnd_def trimStart_def)
    with n show "splitPayload payload = (trim payload, [])" by (simp add: splitPayload_def)
  qed
qed

text \<open>
  Claim C3 places the metadata start at the first double-space boundary, else at the first
  single space followed by a key start, and takes the whole payload for the message when
  there is neither. \<open>findMetadataStart\<close> asks \<open>isKeyAhead\<close>, which takes \<open>=\<close> after
  the spaces for a key start with an empty key. The payload \<open>x  =5\<close> has no key start at
  position 0 and no boundary, so it is all message; the code puts the metadata start after
  the two spaces and returns the message \<open>x\<close> with \<open>5\<close> under the empty key.
\<close>

theorem metadata_start_at_empty_key:
  "\<not> spec_keyStart ''x  =5'' 0
   \<and> \<not> doubleSpaceBoundary ''x  =5'' 1 3
   \<and> \<not> singleSpaceBoundary ''x  =5'' 1 3 \<and> \<not> singleSpaceBoundary ''x  =5'' 2 3
   \<and> findMetadataStart ''x  =5'' = Some 3
   \<and> splitPayload ''x  =5'' = (''x'', [([], ''5'')])
   \<and> map message (entries (parseLogText sampleDate
         ''2024-04-12T05:41:11.337Z [info] [a.py:1] x  =5'')) = [''x'']
   \<and> map metadata (entries (parseLogText sampleDate
         ''2024-04-12T05:41:11.337Z [info] [a.py:1] x  =5'')) = [[([], ''5'')]]"
  by code_simp

section \<open>Properties of the metadata scan\<close>















section \<open>Properties of the entry ids\<close>

lemma not_digit_hyphen: "\<not> isDigit CHR ''-''"
  by (simp add: isDigit_def charCode_def)

lemma takeWhile_until:
  "\<forall>c\<in>set xs. c \<noteq> a \<Longrightarrow> takeWhile (\<lambda>c. c \<noteq> a) (xs @ a # ys) = xs"
  by (induction xs) auto

lemma in_set_map_filter:
  "e \<in> set (List.map_filter f xs) \<longleftrightarrow> (\<exists>x\<in>set xs. f x = Some e)"
  by (induction xs) (auto simp: List.map_filter_simps split: option.splits)

lemma id_index_inj:
  assumes "ts @ ''-'' @ showNat i = ts' @ ''-'' @ showNat j"
  shows "i = j"
proof -
  have nh: "\<forall>c\<in>set (rev (showNat n)). c \<noteq> CHR ''-''" for n
    using showNat_digits [of n] not_digit_hyphen by auto
  from assms have "rev (ts @ ''-'' @ showNat i) = rev (ts' @ ''-'' @ showNat j)" by simp
  then have "rev (showNat i) @ CHR ''-'' # rev ts = rev (showNat j) @ CHR ''-'' # rev ts'"
    by simp
  then have "takeWhile (\<lambda>c. c \<noteq> CHR ''-'') (rev (showNat i) @ CHR ''-'' # rev ts)
           = takeWhile (\<lambda>c. c \<noteq> CHR ''-'') (rev (showNat j) @ CHR ''-'' # rev ts')"
    by simp
  then have "rev (showNat i) = rev (showNat j)"
    using takeWhile_until [OF nh, of i "rev ts"] takeWhile_until [OF nh, of j "rev ts'"] by simp
  then show ?thesis using showNat_inj by simp
qed

lemma parseLine_id:
  "parseLine dateTime line index = Some e \<Longrightarrow> id' e = timestampRaw e @ ''-'' @ showNat index"
  by (auto simp: parseLine_def split: option.splits)

lemma distinct_map_filter_by_index:
  assumes "distinct (map fst xs)"
    and "\<And>x y e e'. f x = Some e \<Longrightarrow> f y = Some e' \<Longrightarrow> g e = g e' \<Longrightarrow> fst x = fst y"
  shows "distinct (map g (List.map_filter f xs))"
  using assms(1)
proof (induction xs)
  case Nil
  show ?case by (simp add: List.map_filter_simps)
next
  case (Cons x xs)
  then have d: "distinct (map g (List.map_filter f xs))" and nx: "fst x \<notin> fst ` set xs"
    by simp_all
  show ?case
  proof (cases "f x")
    case None
    with d show ?thesis by (simp add: List.map_filter_simps)
  next
    case (Some e)
    have "g e \<notin> g ` set (List.map_filter f xs)"
    proof
      assume "g e \<in> g ` set (List.map_filter f xs)"
      then obtain e' where e': "e' \<in> set (List.map_filter f xs)" and g: "g e = g e'" by auto
      from e' obtain y where y: "y \<in> set xs" and fy: "f y = Some e'"
        by (auto simp: in_set_map_filter)
      from assms(2) [OF Some fy g] y nx show False by auto
    qed
    with d Some show ?thesis by (simp add: List.map_filter_simps)
  qed
qed

text \<open>
  Claim C8. For every input text, the \<open>id\<close> fields of the entries of the result are
  pairwise distinct. Each id is the raw timestamp of the entry, a hyphen and the decimal
  index of a line of the input, so two lines with the same timestamp still get
  different ids.
\<close>

theorem entry_ids_distinct:
  "distinct (map id' (entries (parseLogText dateTime rawText)))
   \<and> list_all (\<lambda>e. \<exists>i < length (splitLines rawText). id' e = timestampRaw e @ ''-'' @ showNat i)
       (entries (parseLogText dateTime rawText))"
proof -
  let ?ils = "filter (\<lambda>il. \<not> isBlank (snd il)) (enumerate 0 (splitLines rawText))"
  have e: "entries (parseLogText dateTime rawText) = List.map_filter (lineResult dateTime) ?ils"
    by (simp add: parseLogText_def foldl_lineStep)
  have "distinct (map fst (enumerate 0 (splitLines rawText)))" by simp
  then have d: "distinct (map fst ?ils)" by (rule distinct_map_filter)
  have inj: "fst x = fst y"
    if "lineResult dateTime x = Some e" "lineResult dateTime y = Some e'" "id' e = id' e'"
    for x y e e'
  proof -
    from that(1) have a: "id' e = timestampRaw e @ ''-'' @ showNat (fst x)"
      unfolding lineResult_def by (rule parseLine_id)
    from that(2) have b: "id' e' = timestampRaw e' @ ''-'' @ showNat (fst y)"
      unfolding lineResult_def by (rule parseLine_id)
    from a b that(3) show ?thesis using id_index_inj by metis
  qed
  have 1: "distinct (map id' (entries (parseLogText dateTime rawText)))"
    unfolding e using d inj by (rule distinct_map_filter_by_index)
  have 2: "\<exists>i < length (splitLines rawText). id' x = timestampRaw x @ ''-'' @ showNat i"
    if "x \<in> set (entries (parseLogText dateTime rawText))" for x
  proof -
    from that e obtain il where il: "il \<in> set ?ils" and r: "lineResult dateTime il = Some x"
      by (auto simp: in_set_map_filter)
    from il have "(fst il, snd il) \<in> set (enumerate 0 (splitLines rawText))" by simp
    then have "fst il < length (splitLines rawText)"
      by (simp only: in_set_enumerate_eq) simp
    with r parseLine_id show ?thesis by (auto simp: lineResult_def)
  qed
  from 1 2 show ?thesis by (simp add: list_all_iff)
qed

theorem entry_ids_distinct_witness:
  "map id' (entries (parseLogText sampleDate
      (''2024-04-12T05:41:11.337Z [info] [a.py:1] one'' @ [LF]
       @ ''2024-04-12T05:41:11.337Z [info] [a.py:1] two'')))
     = [''2024-04-12T05:41:11.337Z-0'', ''2024-04-12T05:41:11.337Z-1'']
   \<and> distinct (map id' (entries (parseLogText sampleDate
      (''2024-04-12T05:41:11.337Z [info] [a.py:1] one'' @ [LF]
       @ ''2024-04-12T05:41:11.337Z [info] [a.py:1] two''))))"
proof -
  have "map id' (entries (parseLogText sampleDate
      (''2024-04-12T05:41:11.337Z [info] [a.py:1] one'' @ [LF]
       @ ''2024-04-12T05:41:11.337Z [info] [a.py:1] two'')))
     = [''2024-04-12T05:41:11.337Z-0'', ''2024-04-12T05:41:11.337Z-1'']" by code_simp
  with entry_ids_distinct [of sampleDate
      "''2024-04-12T05:41:11.337Z [info] [a.py:1] one'' @ [LF]
       @ ''2024-04-12T05:41:11.337Z [info] [a.py:1] two''"]
  show ?thesis by blast
qed


section \<open>Properties of the tabular projection\<close>

text \<open>
  Claim C9 says that every distinct metadata key gives exactly one generated column, named
  after the key, and that a later key whose name collides gets a numeric suffix.
  \<open>ensureColumn\<close> returns the existing column only when the key owns the base name. A
  key that lost the base name to another key is given a new suffixed column each time an
  entry carries it: here the key \<open>a-b\<close>, met in two entries after \<open>a.b\<close>, has the two
  columns \<open>meta_a_b_2\<close> and \<open>meta_a_b_3\<close>. A key that begins with a digit keeps its
  capitals.
\<close>

theorem colliding_key_column_per_entry:
  "map (\<lambda>c. (name c, originalKey c))
     (drop 8 (columns (buildFacetView toNumber (entries (parseLogText sampleDate
        (''2024-04-12T05:41:11.337Z [info] [a.py:1] m a.b=1 a-b=2'' @ [LF]
         @ ''2024-04-12T05:41:11.337Z [info] [a.py:2] m a-b=3''))))))
     = [(''meta_a_b'', Some ''a.b''), (''meta_a_b_2'', Some ''a-b''),
        (''meta_a_b_3'', Some ''a-b'')]
   \<and> sanitizeKey ''1A'' = ''f_1A''"
  by code_simp

end
